theory Spec2Isabelle
  imports Main "HOL-Library.Word"
begin

section \<open>Fitbit to Viatom conversion (convert_fitbit.py)\<close>

text \<open>
  The development embeds the SpO2 export pipeline of \<^verbatim>\<open>convert_fitbit.py\<close>:
  \<^verbatim>\<open>read_csv\<close>, \<^verbatim>\<open>align_spo2_data\<close>, \<^verbatim>\<open>divide_data_to_viatom_chunks\<close>,
  \<^verbatim>\<open>write_to_viatom_file\<close> and \<^verbatim>\<open>export_spo2_as_viatom\<close>.

  Timestamps are the script's timezone-aware datetimes. All of them carry the same
  tzinfo, so Python compares and subtracts them by their wall-clock fields; a timestamp
  is modelled as the number of seconds on that wall clock, an \<open>int\<close>. A
  \<^verbatim>\<open>timedelta\<close> is a number of seconds. Every exception the code can raise is a
  value of \<open>error\<close>.
\<close>

subsection \<open>Errors and the merged table\<close>

datatype error =
    FileNotFoundError string
  | UnboundLocalError
  | IndexError
  | RuntimeError
  | StructError

type_synonym timestamp = int

text \<open>
  \<^verbatim>\<open>data = defaultdict(lambda: [None, None])\<close>: a dictionary from timestamp to the
  two-slot list \<^verbatim>\<open>[spo2, bpm]\<close>. It is an association list in insertion order whose
  keys are kept distinct by the two update functions.
\<close>

type_synonym slots = "int option \<times> int option"
type_synonym table = "(timestamp \<times> slots) list"

text \<open>\<^verbatim>\<open>data[timestamp][0] = value\<close>\<close>

fun set_slot0 :: "timestamp \<Rightarrow> int \<Rightarrow> table \<Rightarrow> table" where
  "set_slot0 t v [] = [(t, (Some v, None))]"
| "set_slot0 t v ((k, (a, b)) # rest) =
     (if k = t then (k, (Some v, b)) # rest else (k, (a, b)) # set_slot0 t v rest)"

text \<open>\<^verbatim>\<open>data[timestamp][1] = value\<close>\<close>

fun set_slot1 :: "timestamp \<Rightarrow> int \<Rightarrow> table \<Rightarrow> table" where
  "set_slot1 t v [] = [(t, (None, Some v))]"
| "set_slot1 t v ((k, (a, b)) # rest) =
     (if k = t then (k, (a, Some v)) # rest else (k, (a, b)) # set_slot1 t v rest)"

text \<open>A \<^verbatim>\<open>for\<close> loop whose body may raise: the first exception ends the loop.\<close>

fun for_each :: "('s \<Rightarrow> 'a \<Rightarrow> error + 's) \<Rightarrow> 'a list \<Rightarrow> 's \<Rightarrow> error + 's" where
  "for_each body [] s = Inr s"
| "for_each body (x # xs) s =
     (case body s x of Inl e \<Rightarrow> Inl e | Inr s' \<Rightarrow> for_each body xs s')"

subsection \<open>read_csv\<close>

text \<open>
  A row is the localized timestamp and \<^verbatim>\<open>round(float(row["value"]))\<close>; parsing and
  time-zone conversion belong to the libraries. The generator skips values below 61
  and yields 100 as 99.
\<close>

definition read_csv :: "(timestamp \<times> int) list \<Rightarrow> (timestamp \<times> int) list" where
  "read_csv rows =
     map (\<lambda>(timestamp, v). (timestamp, if v = 100 then 99 else v))
       (filter (\<lambda>(timestamp, v). \<not> v < 61) rows)"

subsection \<open>align_spo2_data\<close>

text \<open>
  The state of the first loop: \<^verbatim>\<open>sessions\<close> (a list of lists, \<^verbatim>\<open>[start]\<close> while
  open and \<^verbatim>\<open>[start, end]\<close> once closed), \<^verbatim>\<open>prev_timestamp\<close> (unbound before the
  first sample) and \<^verbatim>\<open>data\<close>.
\<close>

type_synonym seg_state = "timestamp list list \<times> timestamp option \<times> table"

text \<open>
  The body of the loop over the samples of one file (lines 129 to 138). In the
  \<^verbatim>\<open>else\<close> branch the code assigns \<^verbatim>\<open>prev_timestamp = sessions[-1][0]\<close> before it
  compares, so the comparison and the appended end both use the start of the open
  session.
\<close>

fun spo2_sample :: "seg_state \<Rightarrow> timestamp \<times> int \<Rightarrow> error + seg_state" where
  "spo2_sample (sessions, prev, data) (timestamp, v) =
     (if length sessions = 0 then
        Inr (sessions @ [[timestamp]], Some timestamp, set_slot0 timestamp v data)
      else
        (case last sessions of
           [] \<Rightarrow> Inl IndexError
         | s0 # s_rest \<Rightarrow>
             (let prev_timestamp = s0 in
              if timestamp - prev_timestamp > 5 * 60 then
                Inr (butlast sessions @ [(s0 # s_rest) @ [prev_timestamp]] @ [[timestamp]],
                     Some timestamp, set_slot0 timestamp v data)
              else
                Inr (sessions, Some timestamp, set_slot0 timestamp v data))))"

definition spo2_loop :: "(timestamp \<times> int) list list \<Rightarrow> error + seg_state" where
  "spo2_loop csv_files =
     for_each (\<lambda>st rows. for_each spo2_sample (read_csv rows) st) csv_files ([], None, [])"

text \<open>The second loop (lines 143 to 147): state \<^verbatim>\<open>data\<close> and \<^verbatim>\<open>last_bpm_timestamp\<close>.\<close>

fun bpm_sample :: "table \<times> timestamp option \<Rightarrow> timestamp \<times> int \<Rightarrow> table \<times> timestamp option" where
  "bpm_sample (data, last_bpm_timestamp) (timestamp, v) =
     (set_slot1 timestamp v data, Some timestamp)"

definition bpm_loop :: "(timestamp \<times> int) list list \<Rightarrow> table \<Rightarrow> table \<times> timestamp option" where
  "bpm_loop json_files data =
     foldl (\<lambda>st entries. foldl bpm_sample st entries) (data, None) json_files"

text \<open>The filter of lines 150 to 153; \<^verbatim>\<open>session[1]\<close> raises on a list with no end.\<close>

fun filter_sessions :: "timestamp list list \<Rightarrow> timestamp \<Rightarrow> error + timestamp list list" where
  "filter_sessions [] last_bpm_timestamp = Inr []"
| "filter_sessions (session # rest) last_bpm_timestamp =
     (case session of
        s0 # s1 # s_rest \<Rightarrow>
          (case filter_sessions rest last_bpm_timestamp of
             Inl e \<Rightarrow> Inl e
           | Inr filtered \<Rightarrow>
               if s1 < last_bpm_timestamp then Inr (session # filtered) else Inr filtered)
      | _ \<Rightarrow> Inl IndexError)"

definition align_spo2_data ::
  "(timestamp \<times> int) list list \<Rightarrow> (timestamp \<times> int) list list \<Rightarrow>
   error + (timestamp list list \<times> table)" where
  "align_spo2_data csv_files json_files =
     (case spo2_loop csv_files of
        Inl e \<Rightarrow> Inl e
      | Inr (sessions, prev, data) \<Rightarrow>
          if length sessions = 0 then
            Inl (FileNotFoundError ''No SPO2 night sessions detected!'')
          else
            (case (if length (last sessions) = 1 then
                     (case prev of
                        None \<Rightarrow> Inl UnboundLocalError
                      | Some prev_timestamp \<Rightarrow>
                          Inr (butlast sessions @ [last sessions @ [prev_timestamp]]))
                   else Inr sessions)
             of
               Inl e \<Rightarrow> Inl e
             | Inr closed \<Rightarrow>
                 (case bpm_loop json_files data of
                    (data', None) \<Rightarrow> Inl (FileNotFoundError ''No heart rate data detected!'')
                  | (data', Some last_bpm_timestamp) \<Rightarrow>
                      (case filter_sessions closed last_bpm_timestamp of
                         Inl e \<Rightarrow> Inl e
                       | Inr filtered_sessions \<Rightarrow> Inr (filtered_sessions, data')))))"

subsection \<open>divide_data_to_viatom_chunks\<close>

text \<open>
  A synthesized record is the tuple \<^verbatim>\<open>(timestamp, spo2, bpm)\<close>. The generator's
  mutable locals are \<^verbatim>\<open>chunks\<close>, \<^verbatim>\<open>chunk\<close> and the running values \<^verbatim>\<open>spo2\<close>
  and \<^verbatim>\<open>bpm\<close>, which are unbound (\<open>None\<close>) until their first assignment.
\<close>

type_synonym viatom_record = "timestamp \<times> int \<times> int"

record gen_state =
  chunks :: "viatom_record list list"
  chunk :: "viatom_record list"
  spo2 :: "int option"
  bpm :: "int option"

text \<open>
  The \<^verbatim>\<open>while timestamp < end_timestamp\<close> loop (lines 177 to 183). Building the
  tuple reads \<^verbatim>\<open>spo2\<close> and \<^verbatim>\<open>bpm\<close>; reading an unbound local raises. The result
  is the timestamp the loop stopped at and the state. (The counter \<^verbatim>\<open>records\<close> is
  never read and is left out.)
\<close>

function emit_records ::
  "timestamp \<Rightarrow> timestamp \<Rightarrow> gen_state \<Rightarrow> error + (timestamp \<times> gen_state)" where
  "emit_records timestamp end_timestamp st =
     (if timestamp < end_timestamp then
        (let st1 = (if length (chunk st) \<ge> 4095
                    then st\<lparr>chunks := chunks st @ [chunk st], chunk := []\<rparr> else st)
         in case spo2 st1 of
              None \<Rightarrow> Inl UnboundLocalError
            | Some s \<Rightarrow>
                (case bpm st1 of
                   None \<Rightarrow> Inl UnboundLocalError
                 | Some b \<Rightarrow>
                     emit_records (timestamp + 4) end_timestamp
                       (st1\<lparr>chunk := chunk st1 @ [(timestamp, s, b)]\<rparr>)))
      else Inr (timestamp, st))"
  by pat_completeness auto
termination
  by (relation "measure (\<lambda>(t, e, st). nat (e - t))") auto

declare emit_records.simps [simp del]

text \<open>
  \<^verbatim>\<open>timestamp < session[0] or timestamp > session[1]\<close>, with Python's short-circuit
  evaluation and its IndexError on a session list that is too short.
\<close>

definition outside_session :: "timestamp \<Rightarrow> timestamp list \<Rightarrow> error + bool" where
  "outside_session timestamp session =
     (case session of
        [] \<Rightarrow> Inl IndexError
      | s0 # s_rest \<Rightarrow>
          if timestamp < s0 then Inr True
          else (case s_rest of [] \<Rightarrow> Inl IndexError | s1 # _ \<Rightarrow> Inr (timestamp > s1)))"

text \<open>
  Lines 169 to 173: the running values take the slots of \<^verbatim>\<open>sorted_data[i]\<close> that
  are not \<^verbatim>\<open>None\<close>.
\<close>

definition assign_running :: "slots \<Rightarrow> gen_state \<Rightarrow> gen_state" where
  "assign_running values st =
     (let st1 = (case fst values of None \<Rightarrow> st | Some v \<Rightarrow> st\<lparr>spo2 := Some v\<rparr>)
      in (case snd values of None \<Rightarrow> st1 | Some v \<Rightarrow> st1\<lparr>bpm := Some v\<rparr>))"

text \<open>
  The loop \<^verbatim>\<open>for i in range(len(sorted_data) - 1)\<close> (lines 163 to 184) visits the
  consecutive pairs \<^verbatim>\<open>sorted_data[i]\<close>, \<^verbatim>\<open>sorted_data[i + 1]\<close>; the recursion is on
  the rest of the list from index \<open>i\<close>. The state carries \<^verbatim>\<open>last_timestamp\<close>. A
  \<^verbatim>\<open>continue\<close> leaves \<^verbatim>\<open>last_timestamp\<close> as it is.
\<close>

fun session_walk ::
  "timestamp list \<Rightarrow> table \<Rightarrow> timestamp option \<Rightarrow> gen_state \<Rightarrow>
   error + (timestamp option \<times> gen_state)" where
  "session_walk session (e1 # e2 # rest) last_timestamp st =
     (let timestamp = (case last_timestamp of None \<Rightarrow> fst e1 | Some l \<Rightarrow> l);
          end_timestamp = fst e2;
          st2 = assign_running (snd e1) st
      in case outside_session timestamp session of
           Inl e \<Rightarrow> Inl e
         | Inr True \<Rightarrow> session_walk session (e2 # rest) last_timestamp st2
         | Inr False \<Rightarrow>
             (case emit_records timestamp end_timestamp st2 of
                Inl e \<Rightarrow> Inl e
              | Inr (t', st3) \<Rightarrow> session_walk session (e2 # rest) (Some t') st3))"
| "session_walk session sorted_data last_timestamp st = Inr (last_timestamp, st)"

text \<open>The body of \<^verbatim>\<open>for session in sessions\<close> (lines 162 to 187).\<close>

definition session_chunks :: "table \<Rightarrow> gen_state \<Rightarrow> timestamp list \<Rightarrow> error + gen_state" where
  "session_chunks sorted_data st session =
     (case session_walk session sorted_data None st of
        Inl e \<Rightarrow> Inl e
      | Inr (last_timestamp, st') \<Rightarrow>
          if chunk st' \<noteq> [] then Inr (st'\<lparr>chunks := chunks st' @ [chunk st'], chunk := []\<rparr>)
          else Inr st')"

definition gen_init :: gen_state where
  "gen_init = \<lparr>chunks = [], chunk = [], spo2 = None, bpm = None\<rparr>"

definition divide_data_to_viatom_chunks ::
  "timestamp list list \<Rightarrow> table \<Rightarrow> error + viatom_record list list" where
  "divide_data_to_viatom_chunks sessions data =
     (let sorted_data = sort_key fst data in
      case for_each (session_chunks sorted_data) sessions gen_init of
        Inl e \<Rightarrow> Inl e
      | Inr st \<Rightarrow> if chunk st \<noteq> [] then Inr (chunks st @ [chunk st]) else Inr (chunks st))"

subsection \<open>write_to_viatom_file\<close>

text \<open>
  The calendar fields of a datetime are computed by Python's datetime library; the
  encoder takes the function from a timestamp to its fields as a parameter.
\<close>

record civil =
  year :: int
  month :: int
  day :: int
  hour :: int
  minute :: int
  second :: int

type_synonym byte = "8 word"

text \<open>
  \<^verbatim>\<open>struct.pack\<close> with the little-endian formats \<^verbatim>\<open>B\<close>, \<^verbatim>\<open>H\<close> and \<^verbatim>\<open>I\<close>: a value
  outside the format's range raises \<^verbatim>\<open>struct.error\<close>.
\<close>

definition pack_B :: "int \<Rightarrow> error + byte list" where
  "pack_B v = (if 0 \<le> v \<and> v \<le> 255 then Inr [word_of_int v] else Inl StructError)"

definition pack_H :: "int \<Rightarrow> error + byte list" where
  "pack_H v =
     (if 0 \<le> v \<and> v \<le> 65535 then Inr [word_of_int v, word_of_int (v div 256)]
      else Inl StructError)"

definition pack_I :: "int \<Rightarrow> error + byte list" where
  "pack_I v =
     (if 0 \<le> v \<and> v \<le> 4294967295
      then Inr [word_of_int v, word_of_int (v div 256), word_of_int (v div 65536),
                word_of_int (v div 16777216)]
      else Inl StructError)"

text \<open>The formats \<^verbatim>\<open><BB\<close> and \<^verbatim>\<open><BBBBB\<close>.\<close>

fun pack_Bs :: "int list \<Rightarrow> error + byte list" where
  "pack_Bs [] = Inr []"
| "pack_Bs (v # vs) =
     (case pack_B v of
        Inl e \<Rightarrow> Inl e
      | Inr b \<Rightarrow> (case pack_Bs vs of Inl e \<Rightarrow> Inl e | Inr bs \<Rightarrow> Inr (b @ bs)))"

text \<open>
  The open file: the bytes written so far and the exception that ended the writing, if
  any. \<^verbatim>\<open>f.write(arg)\<close> evaluates its argument first; once an exception is raised
  nothing more is written and the \<^verbatim>\<open>with\<close> block closes the file as it is.
\<close>

type_synonym bin_file = "byte list \<times> error option"

fun f_write :: "bin_file \<Rightarrow> error + byte list \<Rightarrow> bin_file" where
  "f_write (content, Some e) arg = (content, Some e)"
| "f_write (content, None) (Inl e) = (content, Some e)"
| "f_write (content, None) (Inr bs) = (content @ bs, None)"

definition header_writes :: "civil \<Rightarrow> nat \<Rightarrow> (error + byte list) list" where
  "header_writes d n =
     [pack_Bs [5, 0],
      pack_H (year d),
      pack_Bs [month d, day d, hour d, minute d, second d],
      pack_I (int n * 5 + 40),
      pack_H (int n * 4),
      Inr (replicate 25 0)]"

fun record_writes :: "viatom_record \<Rightarrow> (error + byte list) list" where
  "record_writes (t, s, h) =
     (if s \<le> 61 then [Inr [255], pack_B h, Inr [255, 0, 0]]
      else [if s > 99 then pack_B 99 else pack_B s, pack_B h, Inr [0, 0, 0]])"

text \<open>
  \<open>Inl\<close>: raised before the file is opened. \<open>Inr\<close>: the file as it is left on disk,
  with the exception raised while writing it, if any. The file's name and the failures
  of the file system (\<^verbatim>\<open>open\<close>, \<^verbatim>\<open>write\<close>) are not modelled; the logging
  calls raise nothing.
\<close>

definition write_to_viatom_file ::
  "(timestamp \<Rightarrow> civil) \<Rightarrow> viatom_record list \<Rightarrow> error + bin_file" where
  "write_to_viatom_file civil_of data =
     (if length data > 4095 then Inl RuntimeError
      else
        (case data of
           [] \<Rightarrow> Inl IndexError
         | first # _ \<Rightarrow>
             Inr (foldl f_write ([], None)
                    (header_writes (civil_of (fst first)) (length data)
                     @ concat (map record_writes data)))))"

subsection \<open>export_spo2_as_viatom\<close>

text \<open>The files written, in order, and the exception that ended the run, if any.\<close>

fun write_chunks ::
  "(timestamp \<Rightarrow> civil) \<Rightarrow> viatom_record list list \<Rightarrow> byte list list \<times> error option" where
  "write_chunks civil_of [] = ([], None)"
| "write_chunks civil_of (c # cs) =
     (case write_to_viatom_file civil_of c of
        Inl e \<Rightarrow> ([], Some e)
      | Inr (content, Some e) \<Rightarrow> ([content], Some e)
      | Inr (content, None) \<Rightarrow>
          (case write_chunks civil_of cs of (files, err) \<Rightarrow> (content # files, err)))"

definition export_spo2_as_viatom ::
  "(timestamp \<Rightarrow> civil) \<Rightarrow> (timestamp \<times> int) list list \<Rightarrow> (timestamp \<times> int) list list \<Rightarrow>
   byte list list \<times> error option" where
  "export_spo2_as_viatom civil_of csv_files json_files =
     (if length csv_files = 0 \<or> length json_files = 0 then
        ([], Some (FileNotFoundError ''No SpO2 or heart rate data detected!''))
      else
        (case align_spo2_data csv_files json_files of
           Inl e \<Rightarrow> ([], Some e)
         | Inr (sessions, data) \<Rightarrow>
             (case divide_data_to_viatom_chunks sessions data of
                Inl e \<Rightarrow> ([], Some e)
              | Inr cs \<Rightarrow> write_chunks civil_of cs)))"

subsection \<open>Reference notions used in the statements\<close>

text \<open>
  The session segmentation as the specification words it: a new session starts at the
  first sample; a later sample more than 5 minutes after the previous sample closes the
  current session at the previous sample and opens a new one; the final session is
  closed at the last sample. The arguments of \<open>reference_walk\<close> are the start of the
  open session, the previous sample and the samples still to come.
\<close>

fun reference_walk :: "timestamp \<Rightarrow> timestamp \<Rightarrow> timestamp list \<Rightarrow> timestamp list list" where
  "reference_walk start prev [] = [[start, prev]]"
| "reference_walk start prev (t # ts) =
     (if t - prev > 5 * 60 then [start, prev] # reference_walk t t ts
      else reference_walk start t ts)"

definition reference_sessions :: "timestamp list \<Rightarrow> timestamp list list" where
  "reference_sessions ts = (case ts of [] \<Rightarrow> [] | t # rest \<Rightarrow> reference_walk t t rest)"

text \<open>
  The ranges Python's \<^verbatim>\<open>datetime\<close> type guarantees for its fields.
\<close>

definition valid_civil :: "civil \<Rightarrow> bool" where
  "valid_civil d =
     (1 \<le> year d \<and> year d \<le> 9999 \<and> 1 \<le> month d \<and> month d \<le> 12 \<and>
      1 \<le> day d \<and> day d \<le> 31 \<and> 0 \<le> hour d \<and> hour d \<le> 23 \<and>
      0 \<le> minute d \<and> minute d \<le> 59 \<and> 0 \<le> second d \<and> second d \<le> 59)"

text \<open>
  A calendar for the concrete runs below: timestamps count the seconds from
  2024-01-01 00:00:00 and stay within January 2024.
\<close>

definition january_2024 :: "timestamp \<Rightarrow> civil" where
  "january_2024 t =
     \<lparr>year = 2024, month = 1, day = 1 + t div 86400, hour = t div 3600 mod 24,
      minute = t div 60 mod 60, second = t mod 60\<rparr>"

text \<open>Reading a little-endian unsigned integer back from bytes (\<^verbatim>\<open>struct.unpack\<close>).\<close>

fun le_uint :: "byte list \<Rightarrow> int" where
  "le_uint [] = 0"
| "le_uint (b # bs) = uint b + 256 * le_uint bs"

text \<open>All records the generator has appended so far, in order.\<close>

definition all_records :: "gen_state \<Rightarrow> viatom_record list" where
  "all_records st = concat (chunks st) @ chunk st"

subsection \<open>Auxiliary notions for the proofs\<close>

text \<open>The five bytes of a record whose heart rate fits a byte.\<close>

definition record_bytes :: "viatom_record \<Rightarrow> byte list" where
  "record_bytes r =
     (case r of (t, s, h) \<Rightarrow>
        if s \<le> 61 then [255, word_of_int h, 255, 0, 0]
        else [word_of_int (min s 99), word_of_int h, 0, 0, 0])"

text \<open>The heart-rate value fits the format \<^verbatim>\<open>B\<close>.\<close>

definition hr_ok :: "viatom_record \<Rightarrow> bool" where
  "hr_ok r = (0 \<le> snd (snd r) \<and> snd (snd r) \<le> 255)"

text \<open>The 40 header bytes when every field fits its format.\<close>

definition header_bytes :: "civil \<Rightarrow> nat \<Rightarrow> byte list" where
  "header_bytes d n =
     [5, 0, word_of_int (year d), word_of_int (year d div 256),
      word_of_int (month d), word_of_int (day d), word_of_int (hour d),
      word_of_int (minute d), word_of_int (second d)]
     @ [word_of_int (int n * 5 + 40), word_of_int ((int n * 5 + 40) div 256),
        word_of_int ((int n * 5 + 40) div 65536), word_of_int ((int n * 5 + 40) div 16777216)]
     @ [word_of_int (int n * 4), word_of_int (int n * 4 div 256)]
     @ replicate 25 0"

text \<open>Between two states of the generator only full chunks were flushed.\<close>

definition grows :: "gen_state \<Rightarrow> gen_state \<Rightarrow> bool" where
  "grows st st' =
     (\<exists>full. chunks st' = chunks st @ full \<and> (\<forall>c\<in>set full. length c = 4095) \<and>
        length (chunk st') \<le> 4095 \<and> (full \<noteq> [] \<longrightarrow> chunk st' \<noteq> []) \<and>
        (full = [] \<longrightarrow> length (chunk st) \<le> length (chunk st')))"

text \<open>The records of one run of the inner loop: \<open>n\<close> records from \<open>t\<close>, 4 seconds apart.\<close>

definition ticks :: "timestamp \<Rightarrow> int \<Rightarrow> int \<Rightarrow> nat \<Rightarrow> viatom_record list" where
  "ticks t s b n = map (\<lambda>k. (t + 4 * int k, s, b)) [0..<n]"

text \<open>The number of iterations of the inner loop from \<open>t\<close> to \<open>e\<close>.\<close>

definition tick_count :: "timestamp \<Rightarrow> timestamp \<Rightarrow> nat" where
  "tick_count t e = nat ((e - t + 3) div 4)"


text \<open>The position \<^verbatim>\<open>last_timestamp\<close> is not behind the entry the walk is at, or it lies outside the session.\<close>

definition resumable :: "timestamp list \<Rightarrow> table \<Rightarrow> timestamp option \<Rightarrow> bool" where
  "resumable session sd lt =
     (case lt of None \<Rightarrow> True
      | Some l \<Rightarrow> (case sd of [] \<Rightarrow> True | e # _ \<Rightarrow> fst e \<le> l) \<or>
                  outside_session l session \<noteq> Inr False)"

text \<open>The timestamps of the records are \<open>t0\<close>, \<open>t0 + 4\<close>, \<open>t0 + 8\<close>, ...\<close>

definition spaced_from :: "timestamp \<Rightarrow> viatom_record list \<Rightarrow> bool" where
  "spaced_from t0 recs = (map fst recs = map (\<lambda>k. t0 + 4 * int k) [0..<length recs])"

text \<open>What a walk leaves in \<^verbatim>\<open>last_timestamp\<close>, and where its records start.\<close>

definition walk_post ::
  "timestamp list \<Rightarrow> table \<Rightarrow> timestamp option \<Rightarrow> timestamp option \<Rightarrow> viatom_record list \<Rightarrow> bool"
  where
  "walk_post session sd lt l' recs =
     (case lt of
        Some l \<Rightarrow> spaced_from l recs \<and> l' = Some (l + 4 * int (length recs))
      | None \<Rightarrow> (recs = [] \<and> l' = None) \<or>
                (\<exists>t0\<in>fst ` set sd. outside_session t0 session = Inr False \<and>
                   spaced_from t0 recs \<and> l' = Some (t0 + 4 * int (length recs))))"

text \<open>A record is not before the session start and before every table timestamp after the session end.\<close>

definition bounded_by :: "timestamp \<Rightarrow> timestamp \<Rightarrow> table \<Rightarrow> viatom_record \<Rightarrow> bool" where
  "bounded_by s0 s1 sd r =
     (s0 \<le> fst r \<and>
      (\<forall>tt. s1 < tt \<and> (tt \<in> fst ` set sd \<or> (\<forall>e\<in>set (take 1 sd). tt \<le> fst e))
            \<longrightarrow> fst r < tt))"





text \<open>The shape of \<^verbatim>\<open>sessions\<close> during the first loop: closed sessions have two elements, the open one has one.\<close>

definition seg_inv :: "seg_state \<Rightarrow> bool" where
  "seg_inv st =
     (case st of (sessions, prev, data) \<Rightarrow>
        (sessions = [] \<and> prev = None) \<or>
        (sessions \<noteq> [] \<and> prev \<noteq> None \<and> (\<forall>s\<in>set (butlast sessions). length s = 2) \<and>
         length (last sessions) = 1))"

text \<open>A table whose single interval spans 80000 seconds.\<close>

definition long_night :: table where
  "long_night = [(0, (Some 95, Some 70)), (80000, (None, Some 71))]"

section \<open>Properties\<close>

subsection \<open>Packing and the file writer\<close>

lemma f_write_raised: "foldl f_write (c, Some e) ws = (c, Some e)"
  by (induction ws) auto

lemma f_write_Inl: "foldl f_write (c, None) (Inl e # ws) = (c, Some e)"
  by (simp add: f_write_raised)

lemma f_write_Inr: "foldl f_write (c, None) (Inr bs # ws) = foldl f_write (c @ bs, None) ws"
  by simp

lemma uint_byte: "uint (word_of_int v :: byte) = v mod 256"
  by (simp add: uint_word_of_int)

lemma le_uint_2: 
  assumes "0 \<le> v" "v \<le> 65535"
  shows "le_uint [word_of_int v, word_of_int (v div 256) :: byte] = v"
proof -
  have "v div 256 < 256" "0 \<le> v div 256" using assms by auto
  then have "(v div 256) mod 256 = v div 256" by simp
  then show ?thesis by (simp add: uint_byte)
qed

lemma le_uint_4:
  assumes "0 \<le> v" "v \<le> 4294967295"
  shows "le_uint [word_of_int v, word_of_int (v div 256), word_of_int (v div 65536),
           word_of_int (v div 16777216) :: byte] = v"
proof -
  define a where "a = v div 256"
  define b where "b = a div 256"
  define c where "c = b div 256"
  have b: "v div 65536 = b" unfolding b_def a_def by simp
  have c: "v div 16777216 = c" unfolding c_def b_def a_def by simp
  have "0 \<le> c" "c < 256" using assms unfolding c[symmetric] by auto
  then have c3: "c mod 256 = c" by simp
  have 1: "b mod 256 + 256 * c = b" unfolding c_def by simp
  have 2: "a mod 256 + 256 * b = a" unfolding b_def by simp
  have 3: "v mod 256 + 256 * a = v" unfolding a_def by simp
  show ?thesis
    unfolding b c a_def[symmetric]
    by (simp only: le_uint.simps uint_byte c3 1 2 3 mult_zero_right add_0_right)
qed

lemma record_len: "length (record_bytes r) = 5"
  by (simp add: record_bytes_def split: prod.splits)

lemma record_ok:
  "hr_ok r \<Longrightarrow>
   foldl f_write (c, None) (record_writes r) = (c @ record_bytes r, None)"
  by (cases r) (auto simp: hr_ok_def record_bytes_def pack_B_def min_def)

lemma record_bad:
  "\<not> hr_ok r \<Longrightarrow>
   foldl f_write (c, None) (record_writes r) = (c @ [hd (record_bytes r)], Some StructError)"
  by (cases r) (auto simp: hr_ok_def record_bytes_def pack_B_def min_def f_write_raised)

lemma header_len: "length (header_bytes d n) = 40"
  by (simp add: header_bytes_def)

lemma header_size_field:
  "n \<le> 4095 \<Longrightarrow> le_uint (take 4 (drop 9 (header_bytes d n @ rest))) = int n * 5 + 40"
  using le_uint_4 [of "int n * 5 + 40"] by (simp add: header_bytes_def)

lemma header_duration_field:
  "n \<le> 4095 \<Longrightarrow> le_uint (take 2 (drop 13 (header_bytes d n @ rest))) = int n * 4"
  using le_uint_2 [of "int n * 4"] by (simp add: header_bytes_def)

lemma header_ok:
  assumes "valid_civil d" "n \<le> 4095"
  shows "foldl f_write (c, None) (header_writes d n) = (c @ header_bytes d n, None)"
  using assms
  by (simp add: valid_civil_def header_writes_def header_bytes_def pack_B_def pack_H_def
      pack_I_def)

lemma records_ok:
  "\<forall>r\<in>set data. hr_ok r \<Longrightarrow>
   foldl f_write (c, None) (concat (map record_writes data))
   = (c @ concat (map record_bytes data), None)"
proof (induction data arbitrary: c)
  case Nil
  then show ?case by simp
next
  case (Cons r data)
  then show ?case by (simp add: record_ok)
qed

lemma records_bad:
  "\<not> (\<forall>r\<in>set data. hr_ok r) \<Longrightarrow>
   \<exists>content. foldl f_write (c, None) (concat (map record_writes data))
     = (c @ content, Some StructError) \<and> length content < 5 * length data"
proof (induction data arbitrary: c)
  case Nil
  then show ?case by simp
next
  case (Cons r data)
  show ?case
  proof (cases "hr_ok r")
    case True
    with Cons.prems have "\<not> (\<forall>r\<in>set data. hr_ok r)" by simp
    from Cons.IH [OF this, of "c @ record_bytes r"] obtain content where
      "foldl f_write (c @ record_bytes r, None) (concat (map record_writes data))
       = ((c @ record_bytes r) @ content, Some StructError)" "length content < 5 * length data"
      by blast
    with True show ?thesis
      by (intro exI [of _ "record_bytes r @ content"]) (simp add: record_ok record_len)
  next
    case False
    then show ?thesis
      by (intro exI [of _ "[hd (record_bytes r)]"]) (simp add: record_bad f_write_raised)
  qed
qed

lemma nth_record_bytes:
  "i < length data \<Longrightarrow>
   take 5 (drop (length c + 5 * i) (c @ concat (map record_bytes data))) = record_bytes (data ! i)"
proof (induction data arbitrary: c i)
  case Nil
  then show ?case by simp
next
  case (Cons r data)
  show ?case
  proof (cases i)
    case 0
    then show ?thesis by (simp add: record_len)
  next
    case (Suc j)
    with Cons.prems have j: "j < length data" by simp
    from Cons.IH [OF j, of "c @ record_bytes r"] Suc show ?thesis
      by (simp add: record_len)
  qed
qed

lemma length_records: "length (concat (map record_bytes data)) = 5 * length data"
  by (induction data) (simp_all add: record_len)

lemma pack_Bs_length: "pack_Bs vs = Inr bs \<Longrightarrow> length bs = length vs"
  by (induction vs arbitrary: bs) (auto simp: pack_B_def split: sum.splits if_splits)

lemma pack_H_length: "pack_H v = Inr bs \<Longrightarrow> length bs = 2"
  by (auto simp: pack_H_def split: if_splits)

lemma pack_I_length: "pack_I v = Inr bs \<Longrightarrow> length bs = 4"
  by (auto simp: pack_I_def split: if_splits)

lemma writes_no_error:
  "foldl f_write (c, None) ws = (c', None) \<Longrightarrow>
   \<exists>bss. ws = map Inr bss \<and> c' = c @ concat bss"
proof (induction ws arbitrary: c)
  case Nil
  then show ?case by simp
next
  case (Cons w ws)
  show ?case
  proof (cases w)
    case (Inl e)
    with Cons.prems show ?thesis by (simp add: f_write_raised)
  next
    case (Inr bs)
    with Cons.prems have "foldl f_write (c @ bs, None) ws = (c', None)" by simp
    from Cons.IH [OF this] obtain bss where "ws = map Inr bss" "c' = (c @ bs) @ concat bss"
      by blast
    with Inr show ?thesis by (intro exI [of _ "bs # bss"]) simp
  qed
qed

lemma header_no_error_length:
  assumes "foldl f_write (c, None) (header_writes d n) = (c', None)"
  shows "length c' = length c + 40"
proof -
  from writes_no_error [OF assms] obtain bss where
    w: "header_writes d n = map Inr bss" and c': "c' = c @ concat bss" by blast
  from w obtain b1 b2 b3 b4 b5 b6 where bss: "bss = [b1, b2, b3, b4, b5, b6]"
    and p: "pack_Bs [5, 0] = Inr b1" "pack_H (year d) = Inr b2"
      "pack_Bs [month d, day d, hour d, minute d, second d] = Inr b3"
      "pack_I (int n * 5 + 40) = Inr b4" "pack_H (int n * 4) = Inr b5"
      "b6 = replicate 25 0"
    unfolding header_writes_def by (auto simp: map_eq_Cons_conv)
  from p have "length b1 = 2" "length b2 = 2" "length b3 = 5" "length b4 = 4" "length b5 = 2"
    "length b6 = 25"
    using pack_Bs_length [OF p(1)] pack_Bs_length [OF p(3)] pack_H_length pack_I_length
    by auto
  then show ?thesis by (simp add: c' bss)
qed

lemma write_cases:
  assumes "write_to_viatom_file civil_of data = Inr (content, err)"
  shows "data \<noteq> [] \<and> length data \<le> 4095 \<and>
    foldl f_write (foldl f_write ([], None) (header_writes (civil_of (fst (hd data))) (length data)))
      (concat (map record_writes data)) = (content, err)"
  using assms by (auto simp: write_to_viatom_file_def split: if_splits list.splits)

lemma write_valid:
  assumes "data \<noteq> []" "length data \<le> 4095" "valid_civil (civil_of (fst (hd data)))"
  shows "write_to_viatom_file civil_of data
    = Inr (foldl f_write (header_bytes (civil_of (fst (hd data))) (length data), None)
             (concat (map record_writes data)))"
  using assms header_ok [of "civil_of (fst (hd data))" "length data" "[]"]
  by (cases data) (simp_all add: write_to_viatom_file_def)

lemma nth_take_drop:
  "k + j < length xs \<Longrightarrow> j < n \<Longrightarrow> take n (drop k xs) ! j = xs ! (k + j)"
  by simp

lemma pack_Bs_two: "pack_Bs [5, 0] = Inr [5, 0]"
  by (simp add: pack_B_def)

lemma header_length_le:
  "length (fst (foldl f_write (c, None) (header_writes d n))) \<le> length c + 40"
proof -
  have 1: "length b = 2" if "pack_H v = Inr b" for v b using that by (rule pack_H_length)
  have 2: "length b = 4" if "pack_I v = Inr b" for v b using that by (rule pack_I_length)
  have 3: "length b = 5"
    if "pack_Bs [month d, day d, hour d, minute d, second d] = Inr b" for b
    using pack_Bs_length [OF that] by simp
  show ?thesis
    unfolding header_writes_def pack_Bs_two
    by (cases "pack_H (year d)";
        cases "pack_Bs [month d, day d, hour d, minute d, second d]";
        cases "pack_I (int n * 5 + 40)"; cases "pack_H (int n * 4)")
       (auto simp: f_write_raised simp del: pack_Bs.simps dest!: 1 2 3)
qed

lemma nth_record_bytes_suffix:
  "i < length xs \<Longrightarrow>
   take 5 (drop (length c + 5 * i) (c @ concat (map record_bytes xs) @ extra))
   = record_bytes (xs ! i)"
proof -
  assume i: "i < length xs"
  have "length c + 5 * i + 5 \<le> length (c @ concat (map record_bytes xs))"
    using i by (simp add: length_records)
  then have "take 5 (drop (length c + 5 * i) ((c @ concat (map record_bytes xs)) @ extra))
      = take 5 (drop (length c + 5 * i) (c @ concat (map record_bytes xs)))"
    by (simp only: drop_append take_append) simp
  with nth_record_bytes [OF i, of c] show ?thesis by simp
qed

lemma records_prefix:
  "foldl f_write (c, None) (concat (map record_writes data)) = (content, err) \<Longrightarrow>
   \<exists>k extra. k \<le> length data \<and> content = c @ concat (map record_bytes (take k data)) @ extra \<and>
      (\<forall>r\<in>set (take k data). hr_ok r) \<and> length extra \<le> 1"
proof (induction data arbitrary: c)
  case Nil
  then show ?case by simp
next
  case (Cons r data)
  show ?case
  proof (cases "hr_ok r")
    case True
    with Cons.prems
    have "foldl f_write (c @ record_bytes r, None) (concat (map record_writes data)) = (content, err)"
      by (simp add: record_ok)
    from Cons.IH [OF this] obtain k extra where
      k: "k \<le> length data" "content = (c @ record_bytes r) @ concat (map record_bytes (take k data)) @ extra"
        "\<forall>r\<in>set (take k data). hr_ok r" "length extra \<le> 1"
      by blast
    with True show ?thesis
      by (intro exI [of _ "Suc k"] exI [of _ extra]) simp
  next
    case False
    with Cons.prems have "content = c @ [hd (record_bytes r)]"
      by (simp add: record_bad f_write_raised)
    then show ?thesis
      by (intro exI [of _ 0] exI [of _ "[hd (record_bytes r)]"]) simp
  qed
qed

subsection \<open>Chunk sizes\<close>

lemma grows_refl: "length (chunk st) \<le> 4095 \<Longrightarrow> grows st st"
  by (simp add: grows_def)

lemma grows_trans: "grows st1 st2 \<Longrightarrow> grows st2 st3 \<Longrightarrow> grows st1 st3"
  unfolding grows_def
  apply (elim exE conjE)
  subgoal for f1 f2
    apply (rule exI [of _ "f1 @ f2"])
    apply auto
    done
  done

lemma grows_bound: "grows st st' \<Longrightarrow> length (chunk st') \<le> 4095"
  by (auto simp: grows_def)

lemma grows_push:
  assumes "length (chunk st) \<le> 4095"
  shows "grows st ((if length (chunk st) \<ge> 4095
                    then st\<lparr>chunks := chunks st @ [chunk st], chunk := []\<rparr> else st)
                   \<lparr>chunk := chunk (if length (chunk st) \<ge> 4095
                    then st\<lparr>chunks := chunks st @ [chunk st], chunk := []\<rparr> else st) @ [r]\<rparr>)"
  using assms by (auto simp: grows_def)

lemma emit_grows:
  "emit_records t e st = Inr (t', st') \<Longrightarrow> length (chunk st) \<le> 4095 \<Longrightarrow> grows st st'"
proof (induction t e st rule: emit_records.induct)
  case (1 t e st)
  show ?case
  proof (cases "t < e")
    case False
    with "1.prems" show ?thesis by (simp add: emit_records.simps [of t e st] grows_refl)
  next
    case True
    define st1 where "st1 = (if length (chunk st) \<ge> 4095
                    then st\<lparr>chunks := chunks st @ [chunk st], chunk := []\<rparr> else st)"
    from True "1.prems"(1) obtain s b where s: "spo2 st1 = Some s" and b: "bpm st1 = Some b"
      and rec: "emit_records (t + 4) e (st1\<lparr>chunk := chunk st1 @ [(t, s, b)]\<rparr>) = Inr (t', st')"
      by (auto simp: emit_records.simps [of t e st] st1_def Let_def split: option.splits)
    have g1: "grows st (st1\<lparr>chunk := chunk st1 @ [(t, s, b)]\<rparr>)"
      unfolding st1_def by (rule grows_push) (rule "1.prems")
    have "grows (st1\<lparr>chunk := chunk st1 @ [(t, s, b)]\<rparr>) st'"
      using "1.IH" [OF True st1_def s b rec] grows_bound [OF g1] by simp
    with g1 show ?thesis by (rule grows_trans)
  qed
qed

lemma assign_running_chunks [simp]:
  "chunks (assign_running v st) = chunks st" "chunk (assign_running v st) = chunk st"
  by (auto simp: assign_running_def Let_def split: option.splits)

lemma grows_same:
  "chunks st' = chunks st \<Longrightarrow> chunk st' = chunk st \<Longrightarrow> length (chunk st) \<le> 4095 \<Longrightarrow>
   grows st st'"
  by (simp add: grows_def)

lemma walk_grows:
  "session_walk session sd lt st = Inr (l', st') \<Longrightarrow> length (chunk st) \<le> 4095 \<Longrightarrow>
   grows st st'"
proof (induction sd arbitrary: lt st rule: induct_list012)
  case 1
  then show ?case by (simp add: grows_refl)
next
  case (2 x)
  then show ?case by (simp add: grows_refl)
next
  case (3 e1 e2 rest)
  define ts where "ts = (case lt of None \<Rightarrow> fst e1 | Some l \<Rightarrow> l)"
  define st2 where "st2 = assign_running (snd e1) st"
  have g2: "grows st st2" unfolding st2_def using "3.prems"(2) by (intro grows_same) simp_all
  from "3.prems"(1) consider
      (skip) "outside_session ts session = Inr True"
        "session_walk session (e2 # rest) lt st2 = Inr (l', st')"
    | (emit) t3 st3 where "outside_session ts session = Inr False"
        "emit_records ts (fst e2) st2 = Inr (t3, st3)"
        "session_walk session (e2 # rest) (Some t3) st3 = Inr (l', st')"
    by (auto simp: ts_def st2_def Let_def split: sum.splits bool.splits)
  then show ?case
  proof cases
    case skip
    from "3.IH"(2) [OF skip(2)] grows_bound [OF g2] have "grows st2 st'" by simp
    with g2 show ?thesis by (rule grows_trans)
  next
    case emit
    have g3: "grows st2 st3" using emit_grows [OF emit(2)] grows_bound [OF g2] by simp
    from "3.IH"(2) [OF emit(3)] grows_bound [OF g3] have "grows st3 st'" by simp
    with g2 g3 show ?thesis by (blast intro: grows_trans)
  qed
qed

lemma session_chunks_shape:
  assumes "session_chunks sd st session = Inr st'" "chunk st = []"
  shows "\<exists>new. chunks st' = chunks st @ new \<and> chunk st' = [] \<and>
           (\<forall>c\<in>set new. 1 \<le> length c \<and> length c \<le> 4095) \<and>
           (\<forall>c\<in>set (butlast new). length c = 4095) \<and>
           length new = (length (concat new) + 4094) div 4095"
proof -
  from assms(1) obtain l w where w: "session_walk session sd None st = Inr (l, w)"
    and st': "st' = (if chunk w \<noteq> [] then w\<lparr>chunks := chunks w @ [chunk w], chunk := []\<rparr> else w)"
    by (auto simp: session_chunks_def split: sum.splits if_splits)
  from walk_grows [OF w] assms(2) have "grows st w" by simp
  then obtain full where full: "chunks w = chunks st @ full" "\<forall>c\<in>set full. length c = 4095"
    "length (chunk w) \<le> 4095" "full \<noteq> [] \<longrightarrow> chunk w \<noteq> []"
    by (auto simp: grows_def)
  have cf: "length (concat full) = 4095 * length full"
    using full(2) by (induction full) auto
  show ?thesis
  proof (cases "chunk w = []")
    case True
    with full(4) have "full = []" by blast
    with True st' full(1) show ?thesis by (intro exI [of _ "[]"]) simp
  next
    case False
    then have pos: "1 \<le> length (chunk w)" by (cases "chunk w") auto
    have "(4095 * length full + length (chunk w) + 4094) div 4095 = length full + 1"
      using pos full(3) by simp
    with False st' full pos cf show ?thesis
      by (intro exI [of _ "full @ [chunk w]"]) (auto simp: add.assoc)
  qed
qed

lemma run_invariant:
  "for_each (session_chunks sd) sessions st = Inr st' \<Longrightarrow> chunk st = [] \<Longrightarrow>
   \<forall>c\<in>set (chunks st). 1 \<le> length c \<and> length c \<le> 4095 \<Longrightarrow>
   chunk st' = [] \<and> (\<forall>c\<in>set (chunks st'). 1 \<le> length c \<and> length c \<le> 4095)"
proof (induction sessions arbitrary: st)
  case Nil
  then show ?case by simp
next
  case (Cons session sessions)
  from Cons.prems(1) obtain st1 where 1: "session_chunks sd st session = Inr st1"
    and 2: "for_each (session_chunks sd) sessions st1 = Inr st'"
    by (auto split: sum.splits)
  from session_chunks_shape [OF 1 Cons.prems(2)] Cons.prems(3)
  have "chunk st1 = []" "\<forall>c\<in>set (chunks st1). 1 \<le> length c \<and> length c \<le> 4095"
    by auto
  with Cons.IH [OF 2] show ?case by blast
qed

lemma gen_init_fields [simp]: "chunk gen_init = []" "chunks gen_init = []"
  "spo2 gen_init = None" "bpm gen_init = None"
  by (simp_all add: gen_init_def)

lemma divide_chunk_lengths:
  assumes "divide_data_to_viatom_chunks sessions data = Inr out" "c \<in> set out"
  shows "1 \<le> length c \<and> length c \<le> 4095"
proof -
  from assms(1) obtain st where st: "for_each (session_chunks (sort_key fst data)) sessions gen_init = Inr st"
    and out: "out = (if chunk st \<noteq> [] then chunks st @ [chunk st] else chunks st)"
    by (auto simp: divide_data_to_viatom_chunks_def Let_def split: sum.splits if_splits)
  from run_invariant [OF st] have "chunk st = []" "\<forall>c\<in>set (chunks st). 1 \<le> length c \<and> length c \<le> 4095"
    by simp_all
  with out assms(2) show ?thesis by simp
qed

lemma map_length_const:
  "\<forall>c\<in>set xs. length c = k \<Longrightarrow> map length xs = replicate (length xs) k"
  by (induction xs) auto

lemma twenty_thousand:
  assumes len: "length new = (length (concat new) + 4094) div 4095"
    and full: "\<forall>c\<in>set (butlast new). length c = 4095"
    and n: "length (concat new) = 20000"
  shows "map length new = [4095, 4095, 4095, 4095, 3620]"
proof -
  from len n have l5: "length new = 5" by simp
  then have ne: "new \<noteq> []" by auto
  have bl: "length (butlast new) = 4" using l5 by simp
  have "map length (butlast new) = replicate (length (butlast new)) 4095"
    using full by (rule map_length_const)
  with bl have mb: "map length (butlast new) = [4095, 4095, 4095, 4095]"
    by (simp add: numeral_eq_Suc)
  have "length (concat new) = sum_list (map length new)" by (simp add: length_concat)
  also have "map length new = map length (butlast new) @ [length (last new)]"
    using ne by (metis append_butlast_last_id list.simps(8) list.simps(9) map_append)
  finally have "20000 = sum_list (map length (butlast new)) + length (last new)"
    using n by simp
  with mb have "length (last new) = 3620" by simp
  with mb \<open>map length new = map length (butlast new) @ [length (last new)]\<close> show ?thesis by simp
qed

subsection \<open>The inner loop\<close>

lemma ticks_0 [simp]: "ticks t s b 0 = []"
  by (simp add: ticks_def)

lemma ticks_Suc: "ticks t s b (Suc n) = (t, s, b) # ticks (t + 4) s b n"
proof -
  have "[0..<Suc n] = 0 # map Suc [0..<n]"
    by (simp add: upt_conv_Cons map_Suc_upt del: upt_Suc)
  then show ?thesis by (simp add: ticks_def comp_def algebra_simps del: upt_Suc)
qed

lemma length_ticks [simp]: "length (ticks t s b n) = n"
  by (simp add: ticks_def)

lemma all_records_push:
  "all_records ((if length (chunk st) \<ge> 4095
                    then st\<lparr>chunks := chunks st @ [chunk st], chunk := []\<rparr> else st)
                   \<lparr>chunk := chunk (if length (chunk st) \<ge> 4095
                    then st\<lparr>chunks := chunks st @ [chunk st], chunk := []\<rparr> else st) @ [r]\<rparr>)
   = all_records st @ [r]"
  by (simp add: all_records_def)

lemma tick_count_done: "\<not> t < e \<Longrightarrow> tick_count t e = 0"
  by (simp add: tick_count_def)

lemma tick_count_step:
  assumes "t < e"
  shows "tick_count t e = Suc (tick_count (t + 4) e)"
proof -
  have "e - t + 3 = (e - t - 1) + 4" by simp
  then have 1: "(e - t + 3) div 4 = (e - t - 1) div 4 + 1" by (simp only: div_add_self2)
  have 2: "0 \<le> (e - t - 1) div 4" using assms by simp
  have 3: "e - (t + 4) + 3 = e - t - 1" by simp
  show ?thesis unfolding tick_count_def 3 1 using 2 by (simp add: nat_add_distrib)
qed

lemma emit_records_result:
  "emit_records t e st = Inr (t', st') \<Longrightarrow>
   t' = t + 4 * int (tick_count t e) \<and> spo2 st' = spo2 st \<and> bpm st' = bpm st \<and>
   (\<exists>s b. all_records st' = all_records st @ ticks t s b (tick_count t e) \<and>
      (t < e \<longrightarrow> spo2 st = Some s \<and> bpm st = Some b))"
proof (induction t e st rule: emit_records.induct)
  case (1 t e st)
  show ?case
  proof (cases "t < e")
    case False
    with "1.prems" show ?thesis
      by (simp add: emit_records.simps [of t e st] tick_count_done)
  next
    case True
    define st1 where "st1 = (if length (chunk st) \<ge> 4095
                    then st\<lparr>chunks := chunks st @ [chunk st], chunk := []\<rparr> else st)"
    from True "1.prems"(1) obtain s b where s: "spo2 st1 = Some s" and b: "bpm st1 = Some b"
      and rec: "emit_records (t + 4) e (st1\<lparr>chunk := chunk st1 @ [(t, s, b)]\<rparr>) = Inr (t', st')"
      by (auto simp: emit_records.simps [of t e st] st1_def Let_def split: option.splits)
    let ?st2 = "st1\<lparr>chunk := chunk st1 @ [(t, s, b)]\<rparr>"
    have sb: "spo2 st = Some s" "bpm st = Some b" using s b by (auto simp: st1_def split: if_splits)
    have sb2: "spo2 ?st2 = Some s" "bpm ?st2 = Some b" using s b by auto
    have ar: "all_records ?st2 = all_records st @ [(t, s, b)]"
      unfolding st1_def by (rule all_records_push)
    from "1.IH" [OF True st1_def s b rec] obtain s' b' where
      t': "t' = t + 4 + 4 * int (tick_count (t + 4) e)" and
      v: "spo2 st' = spo2 ?st2" "bpm st' = bpm ?st2" and
      a: "all_records st' = all_records ?st2 @ ticks (t + 4) s' b' (tick_count (t + 4) e)" and
      c: "t + 4 < e \<longrightarrow> spo2 ?st2 = Some s' \<and> bpm ?st2 = Some b'"
      by blast
    have a': "all_records st' = all_records ?st2 @ ticks (t + 4) s b (tick_count (t + 4) e)"
    proof (cases "t + 4 < e")
      case True
      with c sb2 have "s' = s" "b' = b" by auto
      with a show ?thesis by simp
    next
      case False
      then have "tick_count (t + 4) e = 0" by (rule tick_count_done)
      with a show ?thesis by simp
    qed
    show ?thesis
      using t' v sb sb2 a' ar True
      by (auto simp: tick_count_step [OF True] ticks_Suc)
  qed
qed

lemma emit_records_total:
  "spo2 st = Some s \<Longrightarrow> bpm st = Some b \<Longrightarrow> \<exists>r. emit_records t e st = Inr r"
proof (induction t e st rule: emit_records.induct)
  case (1 t e st)
  show ?case
  proof (cases "t < e")
    case False
    then show ?thesis by (simp add: emit_records.simps [of t e st])
  next
    case True
    define st1 where "st1 = (if length (chunk st) \<ge> 4095
                    then st\<lparr>chunks := chunks st @ [chunk st], chunk := []\<rparr> else st)"
    have s: "spo2 st1 = Some s" and b: "bpm st1 = Some b"
      using "1.prems" by (auto simp: st1_def)
    from "1.IH" [OF True st1_def s b] s b obtain r where
      "emit_records (t + 4) e (st1\<lparr>chunk := chunk st1 @ [(t, s, b)]\<rparr>) = Inr r" by auto
    with True s b show ?thesis
      by (simp add: emit_records.simps [of t e st] st1_def [symmetric] Let_def)
  qed
qed

lemma emit_records_unbound:
  "t < e \<Longrightarrow> spo2 st = None \<or> bpm st = None \<Longrightarrow> emit_records t e st = Inl UnboundLocalError"
  by (auto simp: emit_records.simps [of t e st] Let_def split: option.splits)

subsection \<open>The walk over the table\<close>

lemma tick_count_bounds:
  "0 \<le> (e - t + 3) div 4 \<Longrightarrow>
   4 * int (tick_count t e) \<le> e - t + 3 \<and> e - t + 3 < 4 * int (tick_count t e) + 4"
  "\<not> 0 \<le> (e - t + 3) div 4 \<Longrightarrow> tick_count t e = 0 \<and> e < t"
proof -
  define q where "q = (e - t + 3) div 4"
  have eq: "e - t + 3 = 4 * q + (e - t + 3) mod 4" by (simp add: q_def)
  have m: "0 \<le> (e - t + 3) mod 4" "(e - t + 3) mod 4 < 4" by simp_all
  show "0 \<le> (e - t + 3) div 4 \<Longrightarrow>
   4 * int (tick_count t e) \<le> e - t + 3 \<and> e - t + 3 < 4 * int (tick_count t e) + 4"
    using eq m unfolding tick_count_def q_def [symmetric] by auto
  show "\<not> 0 \<le> (e - t + 3) div 4 \<Longrightarrow> tick_count t e = 0 \<and> e < t"
    using eq m unfolding tick_count_def q_def [symmetric] by auto
qed

lemma tick_before: "k < tick_count t e \<Longrightarrow> t + 4 * int k < e"
  using tick_count_bounds [of e t] by (cases "0 \<le> (e - t + 3) div 4") auto

lemma tick_reaches: "e \<le> t + 4 * int (tick_count t e)"
  using tick_count_bounds [of e t] by (cases "0 \<le> (e - t + 3) div 4") auto

lemma tick_overshoot: "t < e \<Longrightarrow> t + 4 * int (tick_count t e) < e + 4"
  using tick_count_bounds [of e t] by (cases "0 \<le> (e - t + 3) div 4") auto

lemma tick_count_pos: "t < e \<Longrightarrow> 0 < tick_count t e"
  by (simp add: tick_count_step)

lemma in_ticks: "r \<in> set (ticks t s b n) \<longleftrightarrow> (\<exists>k<n. r = (t + 4 * int k, s, b))"
  by (auto simp: ticks_def)

lemma session_walk_cases:
  assumes "session_walk session (e1 # e2 # rest) lt st = Inr (l', st')"
  obtains (skip) "outside_session (case lt of None \<Rightarrow> fst e1 | Some l \<Rightarrow> l) session = Inr True"
      "session_walk session (e2 # rest) lt (assign_running (snd e1) st) = Inr (l', st')"
  | (emit) t3 st3 where
      "outside_session (case lt of None \<Rightarrow> fst e1 | Some l \<Rightarrow> l) session = Inr False"
      "emit_records (case lt of None \<Rightarrow> fst e1 | Some l \<Rightarrow> l) (fst e2)
         (assign_running (snd e1) st) = Inr (t3, st3)"
      "session_walk session (e2 # rest) (Some t3) st3 = Inr (l', st')"
  using assms by (auto simp: Let_def split: sum.splits bool.splits)

lemma assign_running_spo2:
  "spo2 (assign_running v st) = (case fst v of Some x \<Rightarrow> Some x | None \<Rightarrow> spo2 st)"
  by (auto simp: assign_running_def Let_def split: option.splits)

lemma assign_running_bpm:
  "bpm (assign_running v st) = (case snd v of Some x \<Rightarrow> Some x | None \<Rightarrow> bpm st)"
  by (auto simp: assign_running_def Let_def split: option.splits)

lemma all_records_assign [simp]: "all_records (assign_running v st) = all_records st"
  by (simp add: all_records_def)



lemma fst_ticks: "map fst (ticks t s b n) = map (\<lambda>k. t + 4 * int k) [0..<n]"
  by (simp add: ticks_def comp_def)

lemma progression_append:
  "map (\<lambda>k. t + 4 * int k) [0..<n] @ map (\<lambda>k. t + 4 * int n + 4 * int k) [0..<m]
   = map (\<lambda>k. t + 4 * int k) [0..<n + m]"
proof (induction m)
  case 0
  then show ?case by simp
next
  case (Suc m)
  have "[0..<n + Suc m] = [0..<n + m] @ [n + m]" by simp
  then have "map (\<lambda>k. t + 4 * int k) [0..<n + Suc m]
     = map (\<lambda>k. t + 4 * int k) [0..<n + m] @ [t + 4 * int (n + m)]"
    by (simp only: map_append list.map)
  with Suc show ?case by (simp add: algebra_simps)
qed

lemma walk_post_Cons:
  "walk_post session sd lt l' recs \<Longrightarrow> walk_post session (e # sd) lt l' recs"
  unfolding walk_post_def by (cases lt) auto

lemma spaced_from_append:
  "spaced_from t0 xs \<Longrightarrow> spaced_from (t0 + 4 * int (length xs)) ys \<Longrightarrow> spaced_from t0 (xs @ ys)"
  unfolding spaced_from_def
  using progression_append [of t0 "length xs" "length ys"] by simp

lemma spaced_from_ticks: "spaced_from t (ticks t s b n)"
  by (simp add: spaced_from_def fst_ticks)

lemma walk_spaced:
  "session_walk session sd lt st = Inr (l', st') \<Longrightarrow>
   \<exists>recs. all_records st' = all_records st @ recs \<and> walk_post session sd lt l' recs"
proof (induction sd arbitrary: lt st rule: induct_list012)
  case 1
  then have eq: "l' = lt" "st' = st" by simp_all
  show ?case unfolding eq by (cases lt) (simp_all add: walk_post_def spaced_from_def)
next
  case (2 x)
  then have eq: "l' = lt" "st' = st" by simp_all
  show ?case unfolding eq by (cases lt) (simp_all add: walk_post_def spaced_from_def)
next
  case (3 e1 e2 rest)
  define ts where "ts = (case lt of None \<Rightarrow> fst e1 | Some l \<Rightarrow> l)"
  define st2 where "st2 = assign_running (snd e1) st"
  from "3.prems"(1) show ?case
  proof (cases rule: session_walk_cases)
    case skip
    from "3.IH"(2) [OF skip(2)] obtain recs where
      "all_records st' = all_records st @ recs" "walk_post session (e2 # rest) lt l' recs"
      by auto
    then show ?thesis
      using walk_post_Cons by blast
  next
    case (emit t3 st3)
    from emit_records_result [OF emit(2) [folded ts_def st2_def]] obtain s b where
      t3: "t3 = ts + 4 * int (tick_count ts (fst e2))" and
      a3: "all_records st3 = all_records st2 @ ticks ts s b (tick_count ts (fst e2))"
      by blast
    define n where "n = tick_count ts (fst e2)"
    from "3.IH"(2) [OF emit(3)] obtain recs where
      a: "all_records st' = all_records st3 @ recs" and
      w: "walk_post session (e2 # rest) (Some t3) l' recs"
      by blast
    from w have p: "spaced_from (ts + 4 * int n) recs"
      and l': "l' = Some (ts + 4 * int n + 4 * int (length recs))"
      by (simp_all add: walk_post_def t3 n_def)
    let ?recs = "ticks ts s b n @ recs"
    have 1: "all_records st' = all_records st @ ?recs"
      using a a3 by (simp add: st2_def n_def)
    have 2: "spaced_from ts ?recs"
      using spaced_from_ticks [of ts s b n] p by (intro spaced_from_append) simp_all
    have 3: "l' = Some (ts + 4 * int (length ?recs))"
      using l' by simp
    have "walk_post session (e1 # e2 # rest) lt l' ?recs"
    proof (cases lt)
      case None
      then have "ts = fst e1" by (simp add: ts_def)
      with 2 3 emit(1) None show ?thesis
        unfolding walk_post_def by (simp add: ts_def)
    next
      case (Some l)
      then have "ts = l" by (simp add: ts_def)
      with 2 3 Some show ?thesis
        unfolding walk_post_def by simp
    qed
    with 1 show ?thesis by blast
  qed
qed

lemma outside_session_pair [simp]:
  "outside_session t (s0 # s1 # srest) = Inr (t < s0 \<or> s1 < t)"
  by (simp add: outside_session_def)

lemma bounded_by_Cons:
  "fst e1 < fst e2 \<Longrightarrow> bounded_by s0 s1 (e2 # rest) r \<Longrightarrow> bounded_by s0 s1 (e1 # e2 # rest) r"
  unfolding bounded_by_def by (auto simp: less_le_trans)

lemma walk_bounds:
  "session_walk (s0 # s1 # srest) sd lt st = Inr (l', st') \<Longrightarrow>
   sorted_wrt (<) (map fst sd) \<Longrightarrow> resumable (s0 # s1 # srest) sd lt \<Longrightarrow>
   \<exists>recs. all_records st' = all_records st @ recs \<and>
     (\<forall>r\<in>set recs. bounded_by s0 s1 sd r) \<and>
     (\<forall>l. l' = Some l \<and> sd \<noteq> [] \<longrightarrow> fst (last sd) \<le> l \<or> s1 < l \<or> l < s0)"
proof (induction sd arbitrary: lt st rule: induct_list012)
  case 1
  then show ?case by simp
next
  case (2 x)
  then show ?case by (auto simp: resumable_def split: option.splits)
next
  case (3 e1 e2 rest)
  define ts where "ts = (case lt of None \<Rightarrow> fst e1 | Some l \<Rightarrow> l)"
  define st2 where "st2 = assign_running (snd e1) st"
  have sorted2: "sorted_wrt (<) (map fst (e2 # rest))" and lt12: "fst e1 < fst e2"
    and later: "\<forall>e\<in>set (e2 # rest). fst e2 \<le> fst e"
    using "3.prems"(2) by auto
  have last2: "last (e1 # e2 # rest) = last (e2 # rest)" by simp
  from "3.prems"(1) show ?case
  proof (cases rule: session_walk_cases)
    case skip
    have "resumable (s0 # s1 # srest) (e2 # rest) lt"
      using skip(1) "3.prems"(3) by (auto simp: resumable_def split: option.splits)
    from "3.IH"(2) [OF skip(2) sorted2 this] obtain recs where
      a: "all_records st' = all_records st @ recs" and
      r: "\<forall>r\<in>set recs. bounded_by s0 s1 (e2 # rest) r" and
      e: "\<forall>l. l' = Some l \<longrightarrow> fst (last (e2 # rest)) \<le> l \<or> s1 < l \<or> l < s0"
      by auto
    have "\<forall>r\<in>set recs. bounded_by s0 s1 (e1 # e2 # rest) r"
      using r bounded_by_Cons [OF lt12] by blast
    with a e show ?thesis
      unfolding last2 by (intro exI [of _ recs]) blast
  next
    case (emit t3 st3)
    have inside: "fst e1 \<le> ts" "s0 \<le> ts" "ts \<le> s1"
      using emit(1) "3.prems"(3) by (auto simp: resumable_def ts_def split: option.splits)
    from emit_records_result [OF emit(2) [folded ts_def st2_def]] obtain s b where
      t3: "t3 = ts + 4 * int (tick_count ts (fst e2))" and
      a3: "all_records st3 = all_records st2 @ ticks ts s b (tick_count ts (fst e2))"
      by blast
    have "fst e2 \<le> t3" unfolding t3 by (rule tick_reaches)
    then have "resumable (s0 # s1 # srest) (e2 # rest) (Some t3)" by (simp add: resumable_def)
    from "3.IH"(2) [OF emit(3) sorted2 this] obtain recs where
      a: "all_records st' = all_records st3 @ recs" and
      r: "\<forall>r\<in>set recs. bounded_by s0 s1 (e2 # rest) r" and
      e: "\<forall>l. l' = Some l \<longrightarrow> fst (last (e2 # rest)) \<le> l \<or> s1 < l \<or> l < s0"
      by auto
    have r': "\<forall>r\<in>set recs. bounded_by s0 s1 (e1 # e2 # rest) r"
      using r bounded_by_Cons [OF lt12] by blast
    have first: "bounded_by s0 s1 (e1 # e2 # rest) r"
      if "r \<in> set (ticks ts s b (tick_count ts (fst e2)))" for r
    proof -
      from that obtain k where k: "k < tick_count ts (fst e2)" "r = (ts + 4 * int k, s, b)"
        by (auto simp: in_ticks)
      have lt2: "fst r < fst e2" using tick_before [OF k(1)] k(2) by simp
      have ge: "ts \<le> fst r" using k(2) by simp
      show ?thesis
        unfolding bounded_by_def
      proof (intro conjI allI impI)
        show "s0 \<le> fst r" using ge inside by simp
      next
        fix tt
        assume tt: "s1 < tt \<and> (tt \<in> fst ` set (e1 # e2 # rest) \<or>
                      (\<forall>e\<in>set (take 1 (e1 # e2 # rest)). tt \<le> fst e))"
        with inside have "tt \<in> fst ` set (e2 # rest)" by auto
        with later have "fst e2 \<le> tt" by auto
        with lt2 show "fst r < tt" by simp
      qed
    qed
    let ?recs = "ticks ts s b (tick_count ts (fst e2)) @ recs"
    have 1: "all_records st' = all_records st @ ?recs" using a a3 by (simp add: st2_def)
    have 2: "\<forall>r\<in>set ?recs. bounded_by s0 s1 (e1 # e2 # rest) r"
      using r' first by (simp add: ball_Un)
    from 1 2 e show ?thesis
      unfolding last2 by (intro exI [of _ ?recs]) blast
  qed
qed

subsection \<open>Forward fill\<close>

lemma sorted_table:
  "distinct (map fst data) \<Longrightarrow> sorted_wrt (<) (map fst (sort_key fst data))"
proof -
  assume d: "distinct (map fst data)"
  have "distinct (map fst (sort_key fst data))"
    using d by (induction data) (simp_all add: distinct_insort_key)
  then show ?thesis by (simp add: strict_sorted_iff)
qed

lemma resumable_None [simp]: "resumable session sd None"
  by (simp add: resumable_def)

lemma all_records_flush [simp]:
  "all_records (w\<lparr>chunks := chunks w @ [chunk w], chunk := []\<rparr>) = all_records w"
  by (simp add: all_records_def)

lemma session_chunks_walk:
  assumes "session_chunks sd st session = Inr st'"
  obtains l w where "session_walk session sd None st = Inr (l, w)"
    "all_records st' = all_records w" "chunk st' = []"
    "spo2 st' = spo2 w" "bpm st' = bpm w"
  using assms by (auto simp: session_chunks_def split: sum.splits if_splits)





lemma divide_records:
  assumes "divide_data_to_viatom_chunks sessions data = Inr out"
  obtains st where "for_each (session_chunks (sort_key fst data)) sessions gen_init = Inr st"
    "chunk st = []" "out = chunks st" "concat out = all_records st"
proof -
  from assms obtain st where st: "for_each (session_chunks (sort_key fst data)) sessions gen_init = Inr st"
    and out: "out = (if chunk st \<noteq> [] then chunks st @ [chunk st] else chunks st)"
    by (auto simp: divide_data_to_viatom_chunks_def Let_def split: sum.splits if_splits)
  from run_invariant [OF st] have c: "chunk st = []" by simp
  with out have "out = chunks st" "concat out = all_records st" by (simp_all add: all_records_def)
  with st c that show ?thesis by blast
qed


subsection \<open>Running values across sessions\<close>












subsection \<open>The records of a session\<close>

lemma spaced_from_nth:
  "spaced_from t0 recs \<Longrightarrow> k < length recs \<Longrightarrow> fst (recs ! k) = t0 + 4 * int k"
proof -
  assume s: "spaced_from t0 recs" and k: "k < length recs"
  have "fst (recs ! k) = map fst recs ! k" using k by simp
  also have "\<dots> = map (\<lambda>k. t0 + 4 * int k) [0..<length recs] ! k"
    using s by (simp only: spaced_from_def)
  also have "\<dots> = t0 + 4 * int k" using k by simp
  finally show ?thesis .
qed

lemma sorted_last_max:
  fixes sd :: table
  shows "sorted_wrt (<) (map fst sd) \<Longrightarrow> e \<in> set sd \<Longrightarrow> fst e \<le> fst (last sd)"
proof (induction sd)
  case Nil
  then show ?case by simp
next
  case (Cons x sd)
  show ?case
  proof (cases "sd = []")
    case True
    with Cons.prems show ?thesis by simp
  next
    case False
    then have l: "last sd \<in> set sd" by simp
    with Cons.prems(1) have lt: "fst x < fst (last sd)" by auto
    show ?thesis
    proof (cases "e = x")
      case True
      with lt False show ?thesis by simp
    next
      case False
      with Cons.prems have "e \<in> set sd" "sorted_wrt (<) (map fst sd)" by auto
      with Cons.IH \<open>sd \<noteq> []\<close> show ?thesis by simp
    qed
  qed
qed

lemma session_walk_layout:
  assumes d: "distinct (map fst data)"
    and st: "for_each (session_chunks (sort_key fst data)) earlier gen_init = Inr st"
    and c: "session_chunks (sort_key fst data) st (s0 # s1 # srest) = Inr st'"
  shows "\<exists>recs. concat (chunks st') = concat (chunks st) @ recs \<and>
     (\<forall>k. Suc k < length recs \<longrightarrow> fst (recs ! Suc k) = fst (recs ! k) + 4) \<and>
     (\<forall>r\<in>set recs. s0 \<le> fst r \<and> (\<forall>tt\<in>fst ` set data. s1 < tt \<longrightarrow> fst r < tt)) \<and>
     (recs \<noteq> [] \<longrightarrow> fst (hd recs) \<in> fst ` set data \<and> fst (hd recs) \<le> s1 \<and>
        ((\<exists>tt\<in>fst ` set data. s1 < tt) \<longrightarrow> s1 < fst (last recs) + 4))"
proof -
  let ?sd = "sort_key fst data"
  let ?session = "s0 # s1 # srest"
  have s: "sorted_wrt (<) (map fst ?sd)" using d by (rule sorted_table)
  from run_invariant [OF st] have c0: "chunk st = []" by simp
  from c obtain l w where w: "session_walk ?session ?sd None st = Inr (l, w)"
    and a: "all_records st' = all_records w" and c1: "chunk st' = []"
    by (rule session_chunks_walk)
  from walk_spaced [OF w] obtain recs where
    recs: "all_records w = all_records st @ recs" and
    post: "walk_post ?session ?sd None l recs" by blast
  from walk_bounds [OF w s] obtain recs' where
    recs': "all_records w = all_records st @ recs'" and
    b: "\<forall>r\<in>set recs'. bounded_by s0 s1 ?sd r" and
    e: "\<forall>l'. l = Some l' \<and> ?sd \<noteq> [] \<longrightarrow> fst (last ?sd) \<le> l' \<or> s1 < l' \<or> l' < s0"
    by auto
  from recs recs' have same: "recs' = recs" by simp
  have 1: "concat (chunks st') = concat (chunks st) @ recs"
    using a recs c0 c1 by (simp add: all_records_def)
  have 3: "\<forall>r\<in>set recs. s0 \<le> fst r \<and> (\<forall>tt\<in>fst ` set data. s1 < tt \<longrightarrow> fst r < tt)"
    using b unfolding same bounded_by_def by simp
  have 24: "(\<forall>k. Suc k < length recs \<longrightarrow> fst (recs ! Suc k) = fst (recs ! k) + 4) \<and>
     (recs \<noteq> [] \<longrightarrow> fst (hd recs) \<in> fst ` set data \<and> fst (hd recs) \<le> s1 \<and>
        ((\<exists>tt\<in>fst ` set data. s1 < tt) \<longrightarrow> s1 < fst (last recs) + 4))"
  proof (cases "recs = []")
    case True
    then show ?thesis by simp
  next
    case False
    with post obtain t0 where t0: "t0 \<in> fst ` set ?sd" "outside_session t0 ?session = Inr False"
      "spaced_from t0 recs" "l = Some (t0 + 4 * int (length recs))"
      by (auto simp: walk_post_def)
    have sp: "fst (recs ! k) = t0 + 4 * int k" if "k < length recs" for k
      using spaced_from_nth [OF t0(3) that] .
    have hd: "fst (hd recs) = t0" using sp [of 0] False by (simp add: hd_conv_nth)
    have lst: "fst (last recs) + 4 = t0 + 4 * int (length recs)"
    proof -
      from False obtain m where m: "length recs = Suc m" by (cases recs) auto
      with sp [of m] False show ?thesis by (simp add: last_conv_nth)
    qed
    have in_range: "s0 \<le> t0" "t0 \<le> s1" using t0(2) by auto
    have ne: "?sd \<noteq> []"
    proof
      assume "?sd = []"
      then have "set ?sd = {}" by simp
      with t0(1) show False by simp
    qed
    have "s1 < fst (last recs) + 4" if "\<exists>tt\<in>fst ` set data. s1 < tt"
    proof -
      from that obtain x where x: "x \<in> set ?sd" "s1 < fst x" by auto
      from sorted_last_max [OF s x(1)] x(2) have "s1 < fst (last ?sd)" by simp
      moreover from e t0(4) ne
      have "fst (last ?sd) \<le> t0 + 4 * int (length recs) \<or> s1 < t0 + 4 * int (length recs)
            \<or> t0 + 4 * int (length recs) < s0" by simp
      moreover have "s0 \<le> t0 + 4 * int (length recs)" using in_range by simp
      ultimately show ?thesis unfolding lst by linarith
    qed
    moreover have "\<forall>k. Suc k < length recs \<longrightarrow> fst (recs ! Suc k) = fst (recs ! k) + 4"
      using sp by simp
    ultimately show ?thesis using hd t0(1) in_range by simp
  qed
  from 1 3 24 show ?thesis by blast
qed

lemma emit_half_open:
  assumes "emit_records t e st = Inr (t', st')"
  shows "\<exists>recs. all_records st' = all_records st @ recs \<and> (\<forall>r\<in>set recs. t \<le> fst r \<and> fst r < e)
     \<and> (t < e \<longrightarrow> e \<le> t' \<and> t' < e + 4)"
proof -
  from emit_records_result [OF assms] obtain s b where
    t': "t' = t + 4 * int (tick_count t e)" and
    a: "all_records st' = all_records st @ ticks t s b (tick_count t e)"
    by blast
  have "\<forall>r\<in>set (ticks t s b (tick_count t e)). t \<le> fst r \<and> fst r < e"
    using tick_before [of _ t e] by (auto simp: in_ticks)
  with a t' tick_reaches [of e t] tick_overshoot [of t e] show ?thesis by auto
qed

lemma walk_extends:
  "session_walk session sd lt st = Inr (l', st') \<Longrightarrow>
   \<exists>recs. all_records st' = all_records st @ recs"
  using walk_spaced by blast

lemma walk_starts:
  "session_walk (s0 # s1 # srest) sd None st = Inr (l', st') \<Longrightarrow>
   sorted_wrt (<) (map fst sd) \<Longrightarrow> s0 \<in> fst ` set sd \<Longrightarrow> s0 \<le> s1 \<Longrightarrow>
   \<exists>e\<in>set sd. s0 < fst e \<Longrightarrow>
   \<exists>recs. all_records st' = all_records st @ recs \<and> recs \<noteq> [] \<and> fst (hd recs) = s0"
proof (induction sd arbitrary: st rule: induct_list012)
  case 1
  then show ?case by simp
next
  case (2 x)
  then show ?case by simp
next
  case (3 e1 e2 rest)
  have sorted2: "sorted_wrt (<) (map fst (e2 # rest))" and lt12: "fst e1 < fst e2"
    and later: "\<forall>e\<in>set (e2 # rest). fst e1 < fst e"
    using "3.prems"(2) by auto
  from "3.prems"(3) later have le: "fst e1 \<le> s0" by auto
  from "3.prems"(1) show ?case
  proof (cases rule: session_walk_cases)
    case skip
    then have "fst e1 < s0 \<or> s1 < fst e1" by simp
    with le "3.prems"(4) have lt: "fst e1 < s0" by auto
    with "3.prems"(3) have in2: "s0 \<in> fst ` set (e2 # rest)" by auto
    from "3.prems"(5) lt have ex2: "\<exists>e\<in>set (e2 # rest). s0 < fst e" by auto
    from "3.IH"(2) [OF skip(2) sorted2 in2 "3.prems"(4) ex2] show ?thesis by simp
  next
    case (emit t3 st3)
    then have "s0 \<le> fst e1" by simp
    with le have eq: "fst e1 = s0" by simp
    from emit_records_result [OF emit(2)] obtain s b where
      a3: "all_records st3 = all_records (assign_running (snd e1) st)
             @ ticks (fst e1) s b (tick_count (fst e1) (fst e2))"
      by auto
    from tick_count_pos [OF lt12] obtain m where m: "tick_count s0 (fst e2) = Suc m"
      unfolding eq by (cases "tick_count s0 (fst e2)") auto
    from walk_extends [OF emit(3)] obtain recs where
      a: "all_records st' = all_records st3 @ recs" by blast
    have t: "ticks (fst e1) s b (tick_count (fst e1) (fst e2))
             = (s0, s, b) # ticks (s0 + 4) s b m"
      by (simp add: m ticks_Suc eq)
    show ?thesis
      using a a3 unfolding t
      by (intro exI [of _ "((s0, s, b) # ticks (s0 + 4) s b m) @ recs"]) simp
  qed
qed

lemma session_walk_start:
  assumes d: "distinct (map fst data)"
    and st: "for_each (session_chunks (sort_key fst data)) earlier gen_init = Inr st"
    and c: "session_chunks (sort_key fst data) st (s0 # s1 # srest) = Inr st'"
    and s0: "s0 \<in> fst ` set data" and le: "s0 \<le> s1"
    and ex: "\<exists>tt\<in>fst ` set data. s1 < tt"
  shows "\<exists>recs. concat (chunks st') = concat (chunks st) @ recs \<and> recs \<noteq> [] \<and>
           fst (hd recs) = s0"
proof -
  let ?sd = "sort_key fst data"
  have s: "sorted_wrt (<) (map fst ?sd)" using d by (rule sorted_table)
  from run_invariant [OF st] have c0: "chunk st = []" by simp
  from c obtain l w where w: "session_walk (s0 # s1 # srest) ?sd None st = Inr (l, w)"
    and a: "all_records st' = all_records w" and c1: "chunk st' = []"
    by (rule session_chunks_walk)
  from ex obtain x where "x \<in> set data" "s1 < fst x" by auto
  with le have ex': "\<exists>e\<in>set ?sd. s0 < fst e"
    by (intro bexI [of _ x]) simp_all
  from s0 have s0': "s0 \<in> fst ` set ?sd" by simp
  from walk_starts [OF w s s0' le ex'] a c0 c1 show ?thesis
    by (simp add: all_records_def)
qed

subsection \<open>Alignment\<close>

lemma spo2_sample_inv:
  assumes "seg_inv st"
  shows "\<exists>sessions prev data. spo2_sample st x = Inr (sessions, prev, data) \<and>
           seg_inv (sessions, prev, data) \<and> sessions \<noteq> []"
proof -
  obtain sessions prev data where st: "st = (sessions, prev, data)" by (cases st)
  obtain timestamp v where x: "x = (timestamp, v)" by (cases x)
  show ?thesis
  proof (cases "sessions = []")
    case True
    then show ?thesis by (simp add: st x seg_inv_def)
  next
    case False
    with assms have l: "length (last sessions) = 1"
      and b: "\<forall>s\<in>set (butlast sessions). length s = 2"
      by (auto simp: st seg_inv_def)
    from l obtain s0 where s0: "last sessions = [s0]" by (cases "last sessions") auto
    show ?thesis
      using False b s0 by (auto simp: st x seg_inv_def Let_def butlast_append)
  qed
qed

lemma spo2_samples_inv:
  "seg_inv st \<Longrightarrow>
   \<exists>sessions prev data. for_each spo2_sample xs st = Inr (sessions, prev, data) \<and>
      seg_inv (sessions, prev, data) \<and> (sessions = [] \<longleftrightarrow> fst st = [] \<and> xs = [])"
proof (induction xs arbitrary: st)
  case Nil
  then show ?case by (cases st) simp
next
  case (Cons x xs)
  from spo2_sample_inv [OF Cons.prems, of x] obtain s1 p1 d1 where
    1: "spo2_sample st x = Inr (s1, p1, d1)" "seg_inv (s1, p1, d1)" "s1 \<noteq> []" by blast
  from Cons.IH [OF 1(2)] obtain s2 p2 d2 where
    2: "for_each spo2_sample xs (s1, p1, d1) = Inr (s2, p2, d2)" "seg_inv (s2, p2, d2)"
       "s2 = [] \<longleftrightarrow> fst (s1, p1, d1) = [] \<and> xs = []" by blast
  with 1 show ?case by simp
qed

lemma for_each_append:
  "for_each f (xs @ ys) s = (case for_each f xs s of Inl e \<Rightarrow> Inl e | Inr s' \<Rightarrow> for_each f ys s')"
  by (induction xs arbitrary: s) (auto split: sum.splits)

lemma for_each_concat:
  "for_each (\<lambda>st xs. for_each f (g xs) st) xss s = for_each f (concat (map g xss)) s"
  by (induction xss arbitrary: s) (auto simp: for_each_append split: sum.splits)

lemma spo2_loop_result:
  "\<exists>sessions prev data. spo2_loop csv_files = Inr (sessions, prev, data) \<and>
      seg_inv (sessions, prev, data) \<and> (sessions = [] \<longleftrightarrow> concat (map read_csv csv_files) = [])"
proof -
  have "seg_inv ([], None, [])" by (simp add: seg_inv_def)
  from spo2_samples_inv [OF this, of "concat (map read_csv csv_files)"]
  show ?thesis by (simp add: spo2_loop_def for_each_concat)
qed

lemma foldl_concat_nested: "foldl (\<lambda>st xs. foldl f st xs) s xss = foldl f s (concat xss)"
  by (induction xss arbitrary: s) simp_all

lemma bpm_samples_last:
  "snd (foldl bpm_sample (d, l) entries) = (if entries = [] then l else Some (fst (last entries)))"
  by (induction entries arbitrary: d l) (auto split: prod.splits)

lemma bpm_loop_last:
  "snd (bpm_loop json_files data)
   = (if concat json_files = [] then None else Some (fst (last (concat json_files))))"
  by (simp add: bpm_loop_def foldl_concat_nested bpm_samples_last)

lemma filter_sessions_ok:
  "\<forall>s\<in>set sessions. length s = 2 \<Longrightarrow>
   filter_sessions sessions l = Inr (filter (\<lambda>s. s ! 1 < l) sessions)"
proof (induction sessions)
  case Nil
  then show ?case by simp
next
  case (Cons s sessions)
  from Cons.prems obtain s0 s1 where "s = [s0, s1]"
    by (cases s; cases "tl s") auto
  with Cons show ?case by simp
qed

lemma align_result:
  "align_spo2_data csv_files json_files =
     (if concat (map read_csv csv_files) = [] then
        Inl (FileNotFoundError ''No SPO2 night sessions detected!'')
      else if concat json_files = [] then
        Inl (FileNotFoundError ''No heart rate data detected!'')
      else
        Inr (projr (align_spo2_data csv_files json_files)))"
proof -
  from spo2_loop_result [of csv_files] obtain sessions prev data where
    l: "spo2_loop csv_files = Inr (sessions, prev, data)" and
    i: "seg_inv (sessions, prev, data)" and
    e: "sessions = [] \<longleftrightarrow> concat (map read_csv csv_files) = []" by blast
  show ?thesis
  proof (cases "sessions = []")
    case True
    with l e show ?thesis by (simp add: align_spo2_data_def)
  next
    case False
    with i obtain p where p: "prev = Some p" and one: "length (last sessions) = 1"
      and two: "\<forall>s\<in>set (butlast sessions). length s = 2"
      by (auto simp: seg_inv_def)
    let ?closed = "butlast sessions @ [last sessions @ [p]]"
    have c: "\<forall>s\<in>set ?closed. length s = 2" using one two by auto
    obtain data' lb where b: "bpm_loop json_files data = (data', lb)" by (cases "bpm_loop json_files data")
    with bpm_loop_last [of json_files data]
    have lb: "lb = (if concat json_files = [] then None else Some (fst (last (concat json_files))))"
      by simp
    from False e have ne: "concat (map read_csv csv_files) \<noteq> []" by simp
    show ?thesis
    proof (cases "concat json_files = []")
      case True
      with lb have "lb = None" by simp
      with False l p one b ne True show ?thesis
        by (simp add: align_spo2_data_def del: concat_eq_Nil_conv)
    next
      case nj: False
      with lb obtain t where "lb = Some t" by simp
      with False l p one b ne nj filter_sessions_ok [OF c, of t] show ?thesis
        by (simp add: align_spo2_data_def del: concat_eq_Nil_conv)
    qed
  qed
qed

subsection \<open>The chunks of the last session\<close>

lemma divide_snoc:
  assumes "divide_data_to_viatom_chunks (earlier @ [session]) data = Inr out'"
  obtains st st' where
    "for_each (session_chunks (sort_key fst data)) earlier gen_init = Inr st"
    "session_chunks (sort_key fst data) st session = Inr st'"
    "chunk st = []" "chunk st' = []" "out' = chunks st'"
    "divide_data_to_viatom_chunks earlier data = Inr (chunks st)"
proof -
  let ?sd = "sort_key fst data"
  from assms obtain st' where st': "for_each (session_chunks ?sd) (earlier @ [session]) gen_init = Inr st'"
    and c': "chunk st' = []" and out': "out' = chunks st'"
    by (rule divide_records)
  from st' obtain st where st: "for_each (session_chunks ?sd) earlier gen_init = Inr st"
    and s: "session_chunks ?sd st session = Inr st'"
    by (auto simp: for_each_append split: sum.splits)
  from run_invariant [OF st] have c: "chunk st = []" by simp
  have "divide_data_to_viatom_chunks earlier data = Inr (chunks st)"
    using st c by (simp add: divide_data_to_viatom_chunks_def)
  with st s c c' out' that show ?thesis by blast
qed

lemma long_night_run:
  "\<exists>out. divide_data_to_viatom_chunks [[0, 0]] long_night = Inr out \<and>
     length (concat out) = 20000"
proof -
  let ?st2 = "assign_running (Some 95, Some 70) gen_init"
  have sb: "spo2 ?st2 = Some 95" "bpm ?st2 = Some 70"
    by (simp_all add: assign_running_spo2 assign_running_bpm)
  from emit_records_total [OF sb, of 0 80000] obtain t3 st3 where
    e: "emit_records 0 80000 ?st2 = Inr (t3, st3)" by (metis surj_pair)
  from emit_records_result [OF e] obtain s b where
    a: "all_records st3 = all_records ?st2 @ ticks 0 s b (tick_count 0 80000)" by blast
  have tc: "tick_count 0 80000 = 20000" by (simp add: tick_count_def)
  have len: "length (all_records st3) = 20000"
    using a by (simp add: tc all_records_def)
  have w: "session_walk [0, 0] long_night None gen_init = Inr (Some t3, st3)"
    using e by (simp add: long_night_def)
  let ?st' = "if chunk st3 \<noteq> [] then st3\<lparr>chunks := chunks st3 @ [chunk st3], chunk := []\<rparr> else st3"
  have sc: "session_chunks long_night gen_init [0, 0] = Inr ?st'"
    using w by (simp add: session_chunks_def)
  have sk: "sort_key fst long_night = long_night" by (simp add: long_night_def)
  have "divide_data_to_viatom_chunks [[0, 0]] long_night
        = Inr (if chunk ?st' \<noteq> [] then chunks ?st' @ [chunk ?st'] else chunks ?st')"
    using sc by (simp add: divide_data_to_viatom_chunks_def sk)
  moreover have "concat (if chunk ?st' \<noteq> [] then chunks ?st' @ [chunk ?st'] else chunks ?st')
     = all_records st3" by (simp add: all_records_def)
  ultimately show ?thesis using len by simp
qed



section \<open>The claims\<close>

subsection \<open>Session segmentation\<close>

text \<open>
  C1. On the saturation samples at 00:00, 00:01 and 00:10 the specification asks for
  the sessions [00:00, 00:01] and [00:10, 00:10]. The code compares each sample with
  the start of the open session rather than with the previous sample and closes the
  session at its own start: it returns [00:00, 00:00] and [00:10, 00:10]. On samples
  every 4 minutes (00:00, 00:04, 00:08) it splits although no gap exceeds 5 minutes.
\<close>

theorem align_sessions_not_reference:
  "align_spo2_data [[(0, 95), (60, 96), (600, 97)]] [[(900, 70)]]
     = Inr ([[0, 0], [600, 600]],
            [(0, (Some 95, None)), (60, (Some 96, None)), (600, (Some 97, None)),
             (900, (None, Some 70))])
   \<and> reference_sessions [0, 60, 600] = [[0, 60], [600, 600]]
   \<and> map_sum id fst (align_spo2_data [[(0, 95), (240, 96), (480, 97)]] [[(900, 70)]])
     = Inr [[0, 0], [480, 480]]
   \<and> reference_sessions [0, 240, 480] = [[0, 480]]"
  by code_simp

subsection \<open>Chunk sizes\<close>

text \<open>
  C2. Every chunk the generator returns holds between 1 and 4095 records. The chunks of
  a session are what the generator's output gains when that session is appended to the
  session list. If they hold \<open>n\<close> records in total there are \<open>(n + 4094) div 4095\<close>
  of them, that is \<open>n / 4095\<close> rounded up, and each but the last holds exactly 4095
  records; 20000 records give chunks of 4095, 4095, 4095, 4095 and 3620 records.
\<close>

theorem chunk_sizes:
  "(divide_data_to_viatom_chunks sessions data = Inr out \<longrightarrow>
      (\<forall>c\<in>set out. 1 \<le> length c \<and> length c \<le> 4095)) \<and>
   (divide_data_to_viatom_chunks earlier data = Inr before \<and>
    divide_data_to_viatom_chunks (earlier @ [session]) data = Inr after \<longrightarrow>
      (\<exists>new. after = before @ new \<and>
         (\<forall>c\<in>set (butlast new). length c = 4095) \<and>
         length new = (length (concat new) + 4094) div 4095 \<and>
         (length (concat new) = 20000 \<longrightarrow> map length new = [4095, 4095, 4095, 4095, 3620])))"
proof (intro conjI impI)
  assume "divide_data_to_viatom_chunks sessions data = Inr out"
  then show "\<forall>c\<in>set out. 1 \<le> length c \<and> length c \<le> 4095"
    using divide_chunk_lengths by blast
next
  assume a: "divide_data_to_viatom_chunks earlier data = Inr before \<and>
    divide_data_to_viatom_chunks (earlier @ [session]) data = Inr after"
  then obtain st st' where
    s: "session_chunks (sort_key fst data) st session = Inr st'" and
    c: "chunk st = []" and o: "after = chunks st'" and
    b: "divide_data_to_viatom_chunks earlier data = Inr (chunks st)"
    by (blast elim: divide_snoc)
  from a b have before: "before = chunks st" by simp
  from session_chunks_shape [OF s c] obtain new where
    n: "chunks st' = chunks st @ new"
       "\<forall>c\<in>set (butlast new). length c = 4095"
       "length new = (length (concat new) + 4094) div 4095"
    by blast
  have "length (concat new) = 20000 \<longrightarrow> map length new = [4095, 4095, 4095, 4095, 3620]"
    using twenty_thousand [OF n(3) n(2)] by blast
  with n o before show "\<exists>new. after = before @ new \<and>
         (\<forall>c\<in>set (butlast new). length c = 4095) \<and>
         length new = (length (concat new) + 4094) div 4095 \<and>
         (length (concat new) = 20000 \<longrightarrow> map length new = [4095, 4095, 4095, 4095, 3620])"
    by (intro exI [of _ new] conjI) (simp, assumption+)
qed

text \<open>
  The session [0, 0] over a table whose first interval spans 80000 seconds: the
  generator returns, and its 20000 records come in five chunks.
\<close>

theorem chunk_sizes_witness:
  "\<exists>out. divide_data_to_viatom_chunks [[0, 0]] long_night = Inr out \<and>
     map length out = [4095, 4095, 4095, 4095, 3620]"
proof -
  from long_night_run obtain out where
    o: "divide_data_to_viatom_chunks ([] @ [[0, 0]]) long_night = Inr out"
    and l: "length (concat out) = 20000" by auto
  have e: "divide_data_to_viatom_chunks [] long_night = Inr []"
    by (simp add: divide_data_to_viatom_chunks_def)
  from chunk_sizes [of "[]" long_night "[]" "[]" "[]" "[0, 0]" out, THEN conjunct2] e o l
  have "map length out = [4095, 4095, 4095, 4095, 3620]" by auto
  with o show ?thesis by auto
qed

subsection \<open>Record bodies\<close>

text \<open>
  C3. Record \<open>i\<close> of a chunk is written when its five bytes, at offset \<open>40 + 5 * i\<close>,
  lie within the file the encoder leaves, whether the encoder wrote the file to the end
  or was stopped by a later record. For every written record these five bytes are
  0xFF, the heart rate, 0xFF, 0, 0 when the record's SpO2 value is at most 61, and
  otherwise \<open>min SpO2 99\<close>, the heart rate, 0, 0, 0. The bytes are read as unsigned
  numbers, so the heart-rate byte is the record's value itself.
\<close>

theorem record_body_bytes:
  assumes w: "write_to_viatom_file civil_of data = Inr (content, err)"
    and i: "i < length data" and r: "data ! i = (t, s, h)"
    and written: "40 + 5 * i + 5 \<le> length content"
  shows "map uint (take 5 (drop (40 + 5 * i) content))
         = (if s \<le> 61 then [255, h, 255, 0, 0] else [min s 99, h, 0, 0, 0])"
proof -
  let ?h = "foldl f_write ([], None) (header_writes (civil_of (fst (hd data))) (length data))"
  from write_cases [OF w] have
    f: "foldl f_write ?h (concat (map record_writes data)) = (content, err)" by simp
  obtain hb he where h: "?h = (hb, he)" by (cases ?h)
  have he: "he = None"
  proof (cases he)
    case (Some e)
    with f h have "content = hb" by (simp add: f_write_raised)
    moreover from header_length_le [of "[]" "civil_of (fst (hd data))" "length data"] h
    have "length hb \<le> 40" by simp
    ultimately show ?thesis using written by simp
  qed simp
  from header_no_error_length [of "[]"] h he have len: "length hb = 40" by simp
  from records_prefix [of hb data content err] f h he obtain k extra where
    k: "k \<le> length data" and
    content: "content = hb @ concat (map record_bytes (take k data)) @ extra" and
    ok: "\<forall>r\<in>set (take k data). hr_ok r" and e: "length extra \<le> 1"
    by auto
  have "length content = 40 + 5 * k + length extra"
    using k by (simp add: content len length_records)
  with written e have ik: "i < k" by simp
  then have ik': "i < length (take k data)" using k by simp
  from nth_record_bytes_suffix [OF ik', of hb extra] len ik
  have "take 5 (drop (40 + 5 * i) content) = record_bytes (t, s, h)"
    by (simp add: content r)
  moreover from ok ik' r ik have "hr_ok (t, s, h)"
    using nth_mem [OF ik'] by simp
  then have "0 \<le> h" "h \<le> 255" by (simp_all add: hr_ok_def)
  ultimately show ?thesis
    by (auto simp: record_bytes_def uint_byte min_def)
qed

text \<open>
  SpO2 61 is written as the marker 0xFF, 62 as 62 and 150 as 99; and the first record
  of a chunk whose second record stops the encoder.
\<close>

theorem record_body_bytes_witness:
  "write_to_viatom_file january_2024 [(0, 61, 70), (4, 62, 71), (8, 150, 72)]
     = Inr ([5, 0, 232, 7, 1, 1, 0, 0, 0, 55, 0, 0, 0, 12, 0, 0, 0, 0, 0, 0, 0, 0, 0, 0, 0,
             0, 0, 0, 0, 0, 0, 0, 0, 0, 0, 0, 0, 0, 0, 0,
             255, 70, 255, 0, 0, 62, 71, 0, 0, 0, 99, 72, 0, 0, 0], None)
   \<and> map uint [255, 70, 255, 0, 0 :: byte] = [255, 70, 255, 0, 0]
   \<and> map uint [62, 71, 0, 0, 0 :: byte] = [min 62 99, 71, 0, 0, 0]
   \<and> map uint [99, 72, 0, 0, 0 :: byte] = [min 150 99, 72, 0, 0, 0]
   \<and> write_to_viatom_file january_2024 [(0, 61, 70), (4, 62, 300)]
     = Inr ([5, 0, 232, 7, 1, 1, 0, 0, 0, 50, 0, 0, 0, 8, 0, 0, 0, 0, 0, 0, 0, 0, 0, 0, 0,
             0, 0, 0, 0, 0, 0, 0, 0, 0, 0, 0, 0, 0, 0, 0,
             255, 70, 255, 0, 0, 62], Some StructError)"
proof -
  let ?data = "[(0, 61, 70), (4, 62, 71), (8, 150, 72)] :: viatom_record list"
  let ?content = "[5, 0, 232, 7, 1, 1, 0, 0, 0, 55, 0, 0, 0, 12, 0, 0, 0, 0, 0, 0, 0, 0, 0, 0, 0,
             0, 0, 0, 0, 0, 0, 0, 0, 0, 0, 0, 0, 0, 0, 0,
             255, 70, 255, 0, 0, 62, 71, 0, 0, 0, 99, 72, 0, 0, 0] :: byte list"
  let ?part = "[(0, 61, 70), (4, 62, 300)] :: viatom_record list"
  let ?left = "[5, 0, 232, 7, 1, 1, 0, 0, 0, 50, 0, 0, 0, 8, 0, 0, 0, 0, 0, 0, 0, 0, 0, 0, 0,
             0, 0, 0, 0, 0, 0, 0, 0, 0, 0, 0, 0, 0, 0, 0,
             255, 70, 255, 0, 0, 62] :: byte list"
  have w: "write_to_viatom_file january_2024 ?data = Inr (?content, None)"
    by code_simp
  have p: "write_to_viatom_file january_2024 ?part = Inr (?left, Some StructError)"
    by code_simp
  have "map uint (take 5 (drop (40 + 5 * 0) ?content)) = [255, 70, 255, 0, 0]"
    using record_body_bytes [OF w, of 0 0 61 70] by simp
  moreover have "map uint (take 5 (drop (40 + 5 * 1) ?content)) = [min 62 99, 71, 0, 0, 0]"
    using record_body_bytes [OF w, of 1 4 62 71] by simp
  moreover have "map uint (take 5 (drop (40 + 5 * 2) ?content)) = [min 150 99, 72, 0, 0, 0]"
    using record_body_bytes [OF w, of 2 8 150 72] by simp
  moreover have "map uint (take 5 (drop (40 + 5 * 0) ?left)) = [255, 70, 255, 0, 0]"
    using record_body_bytes [OF p, of 0 0 61 70] by simp
  ultimately show ?thesis using w p by simp
qed

subsection \<open>Forward fill\<close>



subsection \<open>Missing data\<close>

text \<open>
  C5, as the claim states it: with one saturation sample and one heart-rate sample at
  the same instant no session survives the filter \<open>end < last heart-rate timestamp\<close>,
  and the alignment raises nothing: it returns the empty session list, and the export
  ends without an error and without a file.
\<close>

theorem align_no_surviving_session:
  "align_spo2_data [[(0, 95)]] [[(0, 70)]] = Inr ([], [(0, (Some 95, Some 70))])
   \<and> export_spo2_as_viatom january_2024 [[(0, 95)]] [[(0, 70)]] = ([], None)"
  by code_simp

text \<open>
  C5, amended. The alignment raises FileNotFoundError exactly when \<^verbatim>\<open>read_csv\<close>
  yields no saturation sample (``No SPO2 night sessions detected!'') or, saturation
  samples being there, no heart-rate sample exists (``No heart rate data detected!'');
  otherwise it returns. When it returns no session the export writes no file and raises
  nothing. The export itself raises FileNotFoundError when one of the two file lists is
  empty.
\<close>

theorem align_missing_data:
  "align_spo2_data csv_files json_files =
     (if concat (map read_csv csv_files) = [] then
        Inl (FileNotFoundError ''No SPO2 night sessions detected!'')
      else if concat json_files = [] then
        Inl (FileNotFoundError ''No heart rate data detected!'')
      else Inr (projr (align_spo2_data csv_files json_files)))
   \<and> (align_spo2_data csv_files json_files = Inr ([], data) \<longrightarrow>
        export_spo2_as_viatom civil_of csv_files json_files = ([], None))
   \<and> (csv_files = [] \<or> json_files = [] \<longrightarrow>
        export_spo2_as_viatom civil_of csv_files json_files
        = ([], Some (FileNotFoundError ''No SpO2 or heart rate data detected!'')))"
proof (intro conjI impI)
  show "align_spo2_data csv_files json_files =
     (if concat (map read_csv csv_files) = [] then
        Inl (FileNotFoundError ''No SPO2 night sessions detected!'')
      else if concat json_files = [] then
        Inl (FileNotFoundError ''No heart rate data detected!'')
      else Inr (projr (align_spo2_data csv_files json_files)))"
    by (rule align_result)
next
  assume a: "align_spo2_data csv_files json_files = Inr ([], data)"
  have "concat (map read_csv csv_files) \<noteq> []" "concat json_files \<noteq> []"
    using a align_result [of csv_files json_files] by (auto split: if_splits)
  then have "csv_files \<noteq> []" "json_files \<noteq> []" by auto
  moreover have "divide_data_to_viatom_chunks [] data = Inr []"
    by (simp add: divide_data_to_viatom_chunks_def)
  ultimately show "export_spo2_as_viatom civil_of csv_files json_files = ([], None)"
    using a by (simp add: export_spo2_as_viatom_def)
next
  assume "csv_files = [] \<or> json_files = []"
  then show "export_spo2_as_viatom civil_of csv_files json_files
        = ([], Some (FileNotFoundError ''No SpO2 or heart rate data detected!''))"
    by (auto simp: export_spo2_as_viatom_def)
qed

theorem align_missing_data_witness:
  "align_spo2_data [[(4, 95)]] [[(4, 70)]] = Inr ([], [(4, (Some 95, Some 70))])
   \<and> export_spo2_as_viatom january_2024 [[(4, 95)]] [[(4, 70)]] = ([], None)
   \<and> export_spo2_as_viatom january_2024 [] [[(4, 70)]]
     = ([], Some (FileNotFoundError ''No SpO2 or heart rate data detected!''))"
proof -
  have a: "align_spo2_data [[(4, 95)]] [[(4, 70)]] = Inr ([], [(4, (Some 95, Some 70))])"
    by code_simp
  note t = align_missing_data [of "[[(4, 95)]]" "[[(4, 70)]]" "[(4, (Some 95, Some 70))]"
      january_2024]
  note u = align_missing_data [of "[]" "[[(4, 70)]]" "[]" january_2024]
  from t a have "export_spo2_as_viatom january_2024 [[(4, 95)]] [[(4, 70)]] = ([], None)"
    by blast
  moreover from u have "export_spo2_as_viatom january_2024 [] [[(4, 70)]]
     = ([], Some (FileNotFoundError ''No SpO2 or heart rate data detected!''))"
    by blast
  ultimately show ?thesis using a by simp
qed

subsection \<open>Heart-rate bytes\<close>

text \<open>
  C6, as the claim states it: a record with heart rate 300 makes the encoder fail.
  \<^verbatim>\<open>struct.pack("<B", 300)\<close> raises \<^verbatim>\<open>struct.error\<close>; the file is left with its
  header and the record's SpO2 byte, 41 bytes.
\<close>

theorem heart_rate_300_raises:
  "write_to_viatom_file january_2024 [(0, 95, 300)]
   = Inr ([5, 0, 232, 7, 1, 1, 0, 0, 0, 45, 0, 0, 0, 4, 0, 0, 0, 0, 0, 0, 0, 0, 0, 0, 0,
           0, 0, 0, 0, 0, 0, 0, 0, 0, 0, 0, 0, 0, 0, 0, 95], Some StructError)"
  by code_simp

text \<open>
  C6, amended. For a chunk of 1 to 4095 records whose first timestamp has the fields of
  a datetime: when every heart-rate value lies in 0..255 the encoder writes the file to
  the end and the byte at offset \<open>40 + 5 * i + 1\<close> is the heart rate of record \<open>i\<close>,
  unchanged; when some heart-rate value lies outside 0..255 the encoder raises
  \<^verbatim>\<open>struct.error\<close>. No value is truncated.
\<close>

theorem heart_rate_byte:
  assumes ne: "data \<noteq> []" and len: "length data \<le> 4095"
    and v: "valid_civil (civil_of (fst (hd data)))"
  shows "if \<forall>r\<in>set data. 0 \<le> snd (snd r) \<and> snd (snd r) \<le> 255
         then \<exists>content. write_to_viatom_file civil_of data = Inr (content, None) \<and>
                (\<forall>i<length data. uint (content ! (40 + 5 * i + 1)) = snd (snd (data ! i)))
         else \<exists>content. write_to_viatom_file civil_of data = Inr (content, Some StructError)"
proof (cases "\<forall>r\<in>set data. hr_ok r")
  case True
  let ?content = "header_bytes (civil_of (fst (hd data))) (length data) @ concat (map record_bytes data)"
  have w: "write_to_viatom_file civil_of data = Inr (?content, None)"
    using write_valid [where data = data and civil_of = civil_of, OF ne len v] records_ok [OF True] by simp
  have "uint (?content ! (40 + 5 * i + 1)) = snd (snd (data ! i))" if i: "i < length data" for i
  proof -
    obtain t s h where r: "data ! i = (t, s, h)" by (cases "data ! i")
    from True i r have h: "0 \<le> h" "h \<le> 255"
      by (auto simp: hr_ok_def dest!: nth_mem [of i data] bspec)
    define content where "content = ?content"
    have in_file: "40 + 5 * i + 1 < length content"
      using i by (simp add: content_def header_len length_records)
    from nth_record_bytes [OF i, of "header_bytes (civil_of (fst (hd data))) (length data)"]
    have body: "take 5 (drop (40 + 5 * i) content) = record_bytes (t, s, h)"
      by (simp add: content_def header_len r)
    have "content ! (40 + 5 * i + 1) = take 5 (drop (40 + 5 * i) content) ! 1"
      using in_file by (intro nth_take_drop [symmetric]) simp_all
    also have "\<dots> = record_bytes (t, s, h) ! 1" by (simp only: body)
    also have "\<dots> = word_of_int h" by (simp add: record_bytes_def)
    finally have "uint (content ! (40 + 5 * i + 1)) = h"
      using h by (simp add: uint_byte)
    then show ?thesis by (simp add: content_def r)
  qed
  with w True show ?thesis by (auto simp: hr_ok_def)
next
  case False
  from records_bad [OF False] write_valid [where data = data and civil_of = civil_of, OF ne len v] False show ?thesis
    by (auto simp: hr_ok_def)
qed

theorem heart_rate_byte_witness:
  "\<exists>content. write_to_viatom_file january_2024 [(0, 95, 70), (4, 96, 255)] = Inr (content, None)
     \<and> uint (content ! 41) = 70 \<and> uint (content ! 46) = 255"
proof -
  let ?data = "[(0, 95, 70), (4, 96, 255)] :: viatom_record list"
  have v: "valid_civil (january_2024 (fst (hd ?data)))"
    by (simp add: valid_civil_def january_2024_def)
  from heart_rate_byte [of ?data january_2024, OF _ _ v]
  obtain content where w: "write_to_viatom_file january_2024 ?data = Inr (content, None)"
    and b: "\<forall>i<length ?data. uint (content ! (40 + 5 * i + 1)) = snd (snd (?data ! i))"
    by auto
  from b [rule_format, of 0] b [rule_format, of 1] w show ?thesis by auto
qed

subsection \<open>Header fields\<close>

text \<open>
  C7, as the claim states it: for the chunk of two records whose second heart rate is
  256 the encoder raises \<^verbatim>\<open>struct.error\<close> in the second record and leaves a file
  of 46 bytes, not of \<open>5 * 2 + 40 = 50\<close>.
\<close>

theorem partial_file_length:
  "snd (projr (write_to_viatom_file january_2024 [(0, 95, 70), (4, 96, 256)])) = Some StructError
   \<and> length (fst (projr (write_to_viatom_file january_2024 [(0, 95, 70), (4, 96, 256)]))) = 46
   \<and> 5 * length [(0, 95, 70), (4, 96, 256) :: viatom_record] + 40 = 50"
  by code_simp

text \<open>
  C7, amended. For a chunk of \<open>n\<close> records, \<open>1 \<le> n \<le> 4095\<close>, whose first timestamp
  has the fields of a datetime, the encoder opens the file, bytes 9 to 12 read as a
  little-endian number give \<open>5 * n + 40\<close> and bytes 13 to 14 give \<open>4 * n\<close>; when every
  heart-rate value lies in 0..255 the file is written to the end and is \<open>5 * n + 40\<close>
  bytes long.
\<close>

theorem header_round_trip:
  assumes ne: "1 \<le> length data" and len: "length data \<le> 4095"
    and v: "valid_civil (civil_of (fst (hd data)))"
  shows "\<exists>content err. write_to_viatom_file civil_of data = Inr (content, err) \<and>
      le_uint (take 4 (drop 9 content)) = 5 * int (length data) + 40 \<and>
      le_uint (take 2 (drop 13 content)) = 4 * int (length data) \<and>
      ((\<forall>r\<in>set data. 0 \<le> snd (snd r) \<and> snd (snd r) \<le> 255) \<longrightarrow>
         err = None \<and> length content = 5 * length data + 40)"
proof -
  from ne have ne': "data \<noteq> []" by auto
  let ?hb = "header_bytes (civil_of (fst (hd data))) (length data)"
  note w = write_valid [where data = data and civil_of = civil_of, OF ne' len v]
  show ?thesis
  proof (cases "\<forall>r\<in>set data. hr_ok r")
    case True
    with w records_ok [OF True, of ?hb]
    have "write_to_viatom_file civil_of data = Inr (?hb @ concat (map record_bytes data), None)"
      by simp
    then show ?thesis
      using header_size_field [OF len] header_duration_field [OF len]
      by (simp add: header_len length_records algebra_simps)
  next
    case False
    from records_bad [OF False, of ?hb] obtain rest where
      "foldl f_write (?hb, None) (concat (map record_writes data)) = (?hb @ rest, Some StructError)"
      by blast
    with w have "write_to_viatom_file civil_of data = Inr (?hb @ rest, Some StructError)" by simp
    then show ?thesis
      using header_size_field [OF len] header_duration_field [OF len] False
      by (auto simp: algebra_simps hr_ok_def)
  qed
qed

theorem header_round_trip_witness:
  "\<exists>content. write_to_viatom_file january_2024 [(0, 95, 70), (4, 96, 71)] = Inr (content, None)
     \<and> le_uint (take 4 (drop 9 content)) = 50 \<and> le_uint (take 2 (drop 13 content)) = 8
     \<and> length content = 50"
proof -
  let ?data = "[(0, 95, 70), (4, 96, 71)] :: viatom_record list"
  have v: "valid_civil (january_2024 (fst (hd ?data)))"
    by (simp add: valid_civil_def january_2024_def)
  from header_round_trip [of ?data january_2024, OF _ _ v]
  obtain content err where w: "write_to_viatom_file january_2024 ?data = Inr (content, err)"
    and f: "le_uint (take 4 (drop 9 content)) = 5 * int (length ?data) + 40"
      "le_uint (take 2 (drop 13 content)) = 4 * int (length ?data)"
    and t: "(\<forall>r\<in>set ?data. 0 \<le> snd (snd r) \<and> snd (snd r) \<le> 255) \<longrightarrow>
         err = None \<and> length content = 5 * length ?data + 40"
    by auto
  from t have "err = None" "length content = 50" by simp_all
  with w f show ?thesis by auto
qed

subsection \<open>The chunk-length check\<close>

text \<open>
  C8. The encoder raises RuntimeError exactly when its chunk has more than 4095 records,
  and no chunk the generator returns has more than 4095 records: for those the
  RuntimeError branch is not taken.
\<close>

theorem runtime_error_iff:
  "(write_to_viatom_file civil_of data = Inl RuntimeError \<longleftrightarrow> 4095 < length data) \<and>
   (divide_data_to_viatom_chunks sessions tbl = Inr out \<longrightarrow>
      (\<forall>c\<in>set out. length c \<le> 4095 \<and> write_to_viatom_file civil_of c \<noteq> Inl RuntimeError))"
proof -
  have 1: "write_to_viatom_file civil_of d = Inl RuntimeError \<longleftrightarrow> 4095 < length d" for d
    by (auto simp: write_to_viatom_file_def split: list.splits)
  have 2: "length c \<le> 4095"
    if "divide_data_to_viatom_chunks sessions tbl = Inr out" "c \<in> set out" for c
    using divide_chunk_lengths [OF that] by simp
  show ?thesis
    unfolding 1 using 2 by (auto simp: not_less)
qed

theorem runtime_error_iff_witness:
  "write_to_viatom_file january_2024 (replicate 4096 (0, 95, 70)) = Inl RuntimeError
   \<and> divide_data_to_viatom_chunks [[0, 8]]
        [(0, (Some 95, Some 70)), (8, (Some 96, None)), (20, (None, Some 71))]
      = Inr [[(0, 95, 70), (4, 95, 70), (8, 96, 70), (12, 96, 70), (16, 96, 70)]]
   \<and> write_to_viatom_file january_2024
        [(0, 95, 70), (4, 95, 70), (8, 96, 70), (12, 96, 70), (16, 96, 70)] \<noteq> Inl RuntimeError"
proof -
  let ?tbl = "[(0, (Some 95, Some 70)), (8, (Some 96, None)), (20, (None, Some 71))] :: table"
  let ?c = "[(0, 95, 70), (4, 95, 70), (8, 96, 70), (12, 96, 70), (16, 96, 70)]
      :: viatom_record list"
  have d: "divide_data_to_viatom_chunks [[0, 8]] ?tbl = Inr [?c]" by code_simp
  have 1: "write_to_viatom_file january_2024 (replicate 4096 (0, 95, 70)) = Inl RuntimeError"
    using runtime_error_iff [of january_2024 "replicate 4096 (0, 95, 70)" "[]" "[]" "[]"]
    by simp
  have 2: "write_to_viatom_file january_2024 ?c \<noteq> Inl RuntimeError"
    using runtime_error_iff [of january_2024 "[]" "[[0, 8]]" ?tbl "[?c]"] d by simp
  from 1 2 d show ?thesis by simp
qed

subsection \<open>The records of a session\<close>

text \<open>
  C9, as the claim states it: saturation samples at 0 s and 8 s and heart-rate samples
  at 0 s and 20 s give the session [0, 8]; its records are at 0, 4, 8, 12 and 16 s. The
  last two lie after the session's end: the session test is made once per table
  interval, at the instant the interval is entered, and the interval entered at 8 s is
  filled up to the next table timestamp, 20 s.
\<close>

theorem records_past_session_end:
  "align_spo2_data [[(0, 95), (8, 96)]] [[(0, 70), (20, 71)]]
     = Inr ([[0, 8]], [(0, (Some 95, Some 70)), (8, (Some 96, None)), (20, (None, Some 71))])
   \<and> divide_data_to_viatom_chunks [[0, 8]]
        [(0, (Some 95, Some 70)), (8, (Some 96, None)), (20, (None, Some 71))]
     = Inr [[(0, 95, 70), (4, 95, 70), (8, 96, 70), (12, 96, 70), (16, 96, 70)]]
   \<and> 8 < fst (last [(0, 95, 70), (4, 95, 70), (8, 96, 70), (12, 96, 70),
                     (16 :: int, 96 :: int, 70 :: int)])"
  by code_simp

text \<open>
  C9, amended. Let \<open>recs\<close> be the records a session \<open>[s0, s1]\<close> adds to the
  generator's output. Consecutive records are exactly 4 seconds apart. No record is
  before the session's start, and every record is before every table timestamp that is
  later than the session's end: the records may pass the end, but stop before the next
  real timestamp after it. If there are records, the first is at a table timestamp not
  later than the end, and when the table has a timestamp after the end the last record
  is less than 4 seconds before the end or later. When the start is a table timestamp,
  is not after the end and the table has a timestamp after the end, there are records
  and the first is at the session's start. Each run of the inner loop emits its records
  from its starting instant on and strictly before the next table timestamp.
\<close>

theorem session_layout:
  assumes d: "distinct (map fst data)"
    and b: "divide_data_to_viatom_chunks earlier data = Inr before"
    and a: "divide_data_to_viatom_chunks (earlier @ [s0 # s1 # srest]) data = Inr after"
  shows "(\<exists>recs. concat after = concat before @ recs \<and>
     (\<forall>k. Suc k < length recs \<longrightarrow> fst (recs ! Suc k) = fst (recs ! k) + 4) \<and>
     (\<forall>r\<in>set recs. s0 \<le> fst r \<and> (\<forall>tt\<in>fst ` set data. s1 < tt \<longrightarrow> fst r < tt)) \<and>
     (recs \<noteq> [] \<longrightarrow> fst (hd recs) \<in> fst ` set data \<and> fst (hd recs) \<le> s1 \<and>
        ((\<exists>tt\<in>fst ` set data. s1 < tt) \<longrightarrow> s1 < fst (last recs) + 4)) \<and>
     (s0 \<in> fst ` set data \<and> s0 \<le> s1 \<and> (\<exists>tt\<in>fst ` set data. s1 < tt) \<longrightarrow>
        recs \<noteq> [] \<and> fst (hd recs) = s0))
   \<and> (\<forall>t e st t' st'. emit_records t e st = Inr (t', st') \<longrightarrow>
        (\<exists>new. all_records st' = all_records st @ new \<and>
               (\<forall>r\<in>set new. t \<le> fst r \<and> fst r < e)))"
proof (intro conjI allI impI)
  from a obtain st st' where
    1: "for_each (session_chunks (sort_key fst data)) earlier gen_init = Inr st" and
    2: "session_chunks (sort_key fst data) st (s0 # s1 # srest) = Inr st'" and
    3: "after = chunks st'" and
    4: "divide_data_to_viatom_chunks earlier data = Inr (chunks st)"
    by (rule divide_snoc)
  from b 4 have 5: "before = chunks st" by simp
  from session_walk_layout [OF d 1 2] obtain recs where
    r: "concat (chunks st') = concat (chunks st) @ recs" and
    p1: "\<forall>k. Suc k < length recs \<longrightarrow> fst (recs ! Suc k) = fst (recs ! k) + 4" and
    p2: "\<forall>r\<in>set recs. s0 \<le> fst r \<and> (\<forall>tt\<in>fst ` set data. s1 < tt \<longrightarrow> fst r < tt)" and
    p3: "recs \<noteq> [] \<longrightarrow> fst (hd recs) \<in> fst ` set data \<and> fst (hd recs) \<le> s1 \<and>
        ((\<exists>tt\<in>fst ` set data. s1 < tt) \<longrightarrow> s1 < fst (last recs) + 4)"
    by blast
  have p4: "recs \<noteq> [] \<and> fst (hd recs) = s0"
    if h: "s0 \<in> fst ` set data \<and> s0 \<le> s1 \<and> (\<exists>tt\<in>fst ` set data. s1 < tt)"
  proof -
    from h have h1: "s0 \<in> fst ` set data" and h2: "s0 \<le> s1"
      and h3: "\<exists>tt\<in>fst ` set data. s1 < tt" by blast+
    from session_walk_start [OF d 1 2 h1 h2 h3] obtain recs' where
      "concat (chunks st') = concat (chunks st) @ recs'" "recs' \<noteq> []" "fst (hd recs') = s0"
      by blast
    with r show ?thesis by simp
  qed
  from r p1 p2 p3 p4 show "\<exists>recs. concat after = concat before @ recs \<and>
     (\<forall>k. Suc k < length recs \<longrightarrow> fst (recs ! Suc k) = fst (recs ! k) + 4) \<and>
     (\<forall>r\<in>set recs. s0 \<le> fst r \<and> (\<forall>tt\<in>fst ` set data. s1 < tt \<longrightarrow> fst r < tt)) \<and>
     (recs \<noteq> [] \<longrightarrow> fst (hd recs) \<in> fst ` set data \<and> fst (hd recs) \<le> s1 \<and>
        ((\<exists>tt\<in>fst ` set data. s1 < tt) \<longrightarrow> s1 < fst (last recs) + 4)) \<and>
     (s0 \<in> fst ` set data \<and> s0 \<le> s1 \<and> (\<exists>tt\<in>fst ` set data. s1 < tt) \<longrightarrow>
        recs \<noteq> [] \<and> fst (hd recs) = s0)"
    unfolding 3 5 by (intro exI [of _ recs] conjI impI) (assumption | blast)+
next
  fix t e st t' st'
  assume "emit_records t e st = Inr (t', st')"
  from emit_half_open [OF this]
  show "\<exists>new. all_records st' = all_records st @ new \<and> (\<forall>r\<in>set new. t \<le> fst r \<and> fst r < e)"
    by blast
qed

theorem session_layout_witness:
  "distinct (map fst [(0 :: int, (Some (95 :: int), Some (70 :: int))), (8, (Some 96, None)),
                      (24, (None, Some 71))])
   \<and> divide_data_to_viatom_chunks []
        [(0, (Some 95, Some 70)), (8, (Some 96, None)), (24, (None, Some 71))]
      = Inr []
   \<and> divide_data_to_viatom_chunks ([] @ [[0, 8]])
        [(0, (Some 95, Some 70)), (8, (Some 96, None)), (24, (None, Some 71))]
      = Inr [[(0, 95, 70), (4, 95, 70), (8, 96, 70), (12, 96, 70), (16, 96, 70), (20, 96, 70)]]
   \<and> fst (hd [(0, 95, 70), (4, 95, 70), (8, 96, 70), (12, 96, 70), (16, 96, 70),
               (20 :: int, 96 :: int, 70 :: int)]) = 0
   \<and> 8 < fst (last [(0, 95, 70), (4, 95, 70), (8, 96, 70), (12, 96, 70), (16, 96, 70),
                     (20 :: int, 96 :: int, 70 :: int)]) + 4"
proof -
  let ?tbl = "[(0, (Some 95, Some 70)), (8, (Some 96, None)), (24, (None, Some 71))] :: table"
  let ?recs = "[(0, 95, 70), (4, 95, 70), (8, 96, 70), (12, 96, 70), (16, 96, 70), (20, 96, 70)]
      :: viatom_record list"
  have d: "distinct (map fst ?tbl)" by simp
  have b: "divide_data_to_viatom_chunks [] ?tbl = Inr []" by code_simp
  have a: "divide_data_to_viatom_chunks ([] @ [[0, 8]]) ?tbl = Inr [?recs]" by code_simp
  from session_layout [OF d b a, THEN conjunct1] obtain recs where
    r: "concat [?recs] = concat [] @ recs" and
    p: "recs \<noteq> [] \<longrightarrow> fst (hd recs) \<in> fst ` set ?tbl \<and> fst (hd recs) \<le> 8 \<and>
        ((\<exists>tt\<in>fst ` set ?tbl. 8 < tt) \<longrightarrow> 8 < fst (last recs) + 4)" and
    q: "0 \<in> fst ` set ?tbl \<and> (0 :: int) \<le> 8 \<and> (\<exists>tt\<in>fst ` set ?tbl. 8 < tt) \<longrightarrow>
        recs \<noteq> [] \<and> fst (hd recs) = 0"
    by blast
  from r have "recs = ?recs" by simp
  with p q have "fst (hd ?recs) = 0" "8 < fst (last ?recs) + 4" by simp_all
  with d b a show ?thesis by blast
qed

subsection \<open>Unbound running values\<close>

text \<open>
  C10. Saturation samples at 0 s and 60 s and heart-rate samples at 30 s and 120 s are
  aligned to the single retained session [0, 60]. The first record of that session is
  built at 0 s, before any heart-rate value has been assigned to \<^verbatim>\<open>bpm\<close>: the
  generator raises UnboundLocalError and returns no chunks, and the export ends with
  that error without writing a file.
\<close>

theorem generator_unbound_bpm:
  "align_spo2_data [[(0, 95), (60, 96)]] [[(30, 70), (120, 71)]]
     = Inr ([[0, 60]],
            [(0, (Some 95, None)), (60, (Some 96, None)), (30, (None, Some 70)),
             (120, (None, Some 71))])
   \<and> divide_data_to_viatom_chunks [[0, 60]]
        [(0, (Some 95, None)), (60, (Some 96, None)), (30, (None, Some 70)),
         (120, (None, Some 71))]
     = Inl UnboundLocalError
   \<and> export_spo2_as_viatom january_2024 [[(0, 95), (60, 96)]] [[(30, 70), (120, 71)]]
     = ([], Some UnboundLocalError)"
  by code_simp

end
